theory Spec2Isabelle
  imports Main "HOL-Library.AList"
begin

section \<open>The asset graph of the bundler core (AssetGraph.js)\<close>

text \<open>
  \<^verbatim>\<open>AssetGraph\<close> extends the generic \<^verbatim>\<open>Graph\<close> class with two indices,
  \<^verbatim>\<open>incompleteNodes\<close> and \<^verbatim>\<open>invalidNodes\<close>, and with the operations a scheduler
  calls when a unit of work completes or a file changes. Every method mutates
  \<^verbatim>\<open>this\<close>; the model passes the graph in and returns the new one. A JavaScript
  \<^verbatim>\<open>Map\<close> keeps its keys in insertion order, \<^verbatim>\<open>set\<close> on a present key
  replaces the value in place and on an absent key appends: that is
  \<^const>\<open>AList.update\<close> on an association list, and \<^verbatim>\<open>delete\<close> is
  \<^const>\<open>AList.delete\<close>. A thrown exception is the \<open>Inl\<close> of a sum; the model
  drops the partly updated graph an exception leaves behind.
\<close>

subsection \<open>Payloads and nodes\<close>

type_synonym NodeId = string
type_synonym FilePath = string

text \<open>
  The types of \<^verbatim>\<open>@parcel/types\<close> are not among the sources. An environment,
  a config value and a dev-dependency request are opaque JavaScript values of the
  type \<open>'j\<close>; the fields below are the ones AssetGraph.js reads or writes.
\<close>

record 'j Target =
  target_env :: 'j

record 'j DependencyOpts =
  moduleSpecifier :: string
  target :: "'j Target option"
  env :: 'j
  isEntry :: bool

record 'j Dependency = "'j DependencyOpts" +
  dep_id :: NodeId

record 'j TransformerRequest =
  req_filePath :: FilePath
  req_env :: 'j

record 'j Asset =
  asset_id :: NodeId
  dependencies :: "'j Dependency list"

record File =
  filePath :: FilePath

record ConfigRequest =
  cr_filePath :: FilePath
  configType :: string

datatype 'j NodeValue =
    RootValue string
  | DepValue "'j Dependency"
  | FileValue File
  | GlobValue string
  | RequestValue "'j TransformerRequest"
  | AssetValue "'j Asset"
  | ConfigRequestValue ConfigRequest
  | ConfigValue 'j
  | DevDepRequestValue 'j

record 'j Node =
  node_id :: NodeId
  node_type :: string
  node_value :: "'j NodeValue"

datatype error = Error string | TypeError

text \<open>
  What AssetGraph.js imports from outside the repository's sources, taken as
  parameters: \<^verbatim>\<open>md5FromString\<close> and \<^verbatim>\<open>isGlob\<close> of \<^verbatim>\<open>@parcel/utils\<close>,
  \<^verbatim>\<open>isMatch\<close> of micromatch, the built-in \<^verbatim>\<open>JSON.stringify\<close>, and the id the
  \<^verbatim>\<open>Dependency\<close> constructor assigns (\<open>dependencyId k opts\<close>, for the \<open>k\<close>-th
  dependency constructed in a call).
\<close>

record 'j Externals =
  md5FromString :: "string \<Rightarrow> string"
  JSON_stringify :: "'j \<Rightarrow> string"
  isGlob :: "string \<Rightarrow> bool"
  isMatch :: "string \<Rightarrow> string \<Rightarrow> bool"
  dependencyId :: "nat \<Rightarrow> 'j DependencyOpts \<Rightarrow> NodeId"

subsection \<open>The generic graph (Graph.js)\<close>

text \<open>
  An edge is the triple of its ends and its type; the type of a default edge is
  \<^verbatim>\<open>undefined\<close>, here \<open>None\<close>.
\<close>

record Edge =
  edge_from :: NodeId
  edge_to :: NodeId
  edge_type :: "string option"

record 'j Graph =
  nodes :: "(NodeId \<times> 'j Node) list"
  edges :: "Edge list"
  rootNodeId :: "NodeId option"

record 'j AssetGraph = "'j Graph" +
  incompleteNodes :: "(NodeId \<times> 'j Node) list"
  invalidNodes :: "(NodeId \<times> 'j Node) list"

definition emptyAssetGraph :: "'j AssetGraph" where
  "emptyAssetGraph =
     \<lparr>nodes = [], edges = [], rootNodeId = None, incompleteNodes = [], invalidNodes = []\<rparr>"

definition hasNode :: "('j, 'z) Graph_scheme \<Rightarrow> NodeId \<Rightarrow> bool" where
  "hasNode g k \<longleftrightarrow> k \<in> fst ` set (nodes g)"

definition getNode :: "('j, 'z) Graph_scheme \<Rightarrow> NodeId \<Rightarrow> 'j Node option" where
  "getNode g k = map_of (nodes g) k"

text \<open>
  Modelled from the spec: Graph.js is not among the sources. \<^verbatim>\<open>add_node(node)\<close>:
  the node is stored under its id (\<^verbatim>\<open>nodes\<close> is the \<^verbatim>\<open>Map\<close> AssetGraph.js reads
  with \<^verbatim>\<open>this.nodes.get\<close>).
\<close>

definition addNode :: "('j, 'z) Graph_scheme \<Rightarrow> 'j Node \<Rightarrow> ('j, 'z) Graph_scheme" where
  "addNode g n = g\<lparr>nodes := AList.update (node_id n) n (nodes g)\<rparr>"

text \<open>
  Modelled from the spec: Graph.js is not among the sources. The root is a node of
  the graph, and the graph remembers which.
\<close>

definition setRootNode :: "('j, 'z) Graph_scheme \<Rightarrow> 'j Node \<Rightarrow> ('j, 'z) Graph_scheme" where
  "setRootNode g n = (addNode g n)\<lparr>rootNodeId := Some (node_id n)\<rparr>"

text \<open>
  Modelled from the spec: Graph.js is not among the sources. ``Edge identity is the
  triple (from-id, to-id, type); duplicate edges of the same triple are no-ops.''
\<close>

definition hasEdge :: "('j, 'z) Graph_scheme \<Rightarrow> Edge \<Rightarrow> bool" where
  "hasEdge g e \<longleftrightarrow> e \<in> set (edges g)"

definition addEdge :: "('j, 'z) Graph_scheme \<Rightarrow> Edge \<Rightarrow> ('j, 'z) Graph_scheme" where
  "addEdge g e = (if hasEdge g e then g else g\<lparr>edges := edges g @ [e]\<rparr>)"

text \<open>
  Modelled from the spec: Graph.js is not among the sources. ``\<^verbatim>\<open>remove_node\<close> must
  also remove all edges incident to it.''
\<close>

definition Graph_removeNode :: "('j, 'z) Graph_scheme \<Rightarrow> 'j Node \<Rightarrow> ('j, 'z) Graph_scheme" where
  "Graph_removeNode g n =
     g\<lparr>nodes := AList.delete (node_id n) (nodes g),
       edges := filter (\<lambda>e. edge_from e \<noteq> node_id n \<and> edge_to e \<noteq> node_id n) (edges g)\<rparr>"

text \<open>
  Modelled from the spec: Graph.js is not among the sources. ``Adjacency queries,
  optionally filtered by edge type; unfiltered queries return edges of the default
  type only.'' \<^verbatim>\<open>get_nodes_connected_to\<close> gives the nodes with an edge of the type
  to the node, \<^verbatim>\<open>get_nodes_connected_from\<close> those the node has such an edge to, in
  the order of the edges; an end that is no node of the graph is left out.
\<close>

definition getNodesConnectedTo ::
  "('j, 'z) Graph_scheme \<Rightarrow> 'j Node \<Rightarrow> string option \<Rightarrow> 'j Node list" where
  "getNodesConnectedTo g n ty =
     List.map_filter (\<lambda>e. getNode g (edge_from e))
       (filter (\<lambda>e. edge_to e = node_id n \<and> edge_type e = ty) (edges g))"

definition getNodesConnectedFrom ::
  "('j, 'z) Graph_scheme \<Rightarrow> 'j Node \<Rightarrow> string option \<Rightarrow> 'j Node list" where
  "getNodesConnectedFrom g n ty =
     List.map_filter (\<lambda>e. getNode g (edge_to e))
       (filter (\<lambda>e. edge_from e = node_id n \<and> edge_type e = ty) (edges g))"

text \<open>The ids of the children of a node along one edge type, in the order of the edges.\<close>

definition childIds :: "('j, 'z) Graph_scheme \<Rightarrow> NodeId \<Rightarrow> string option \<Rightarrow> NodeId list" where
  "childIds g k ty =
     map edge_to (filter (\<lambda>e. edge_from e = k \<and> edge_type e = ty) (edges g))"

text \<open>
  Reachability ``through any edge type'': a path of edges, whatever their types.
\<close>

definition edgePairs :: "('j, 'z) Graph_scheme \<Rightarrow> (NodeId \<times> NodeId) set" where
  "edgePairs g = set (map (\<lambda>e. (edge_from e, edge_to e)) (edges g))"

definition reachable :: "('j, 'z) Graph_scheme \<Rightarrow> NodeId \<Rightarrow> NodeId \<Rightarrow> bool" where
  "reachable g a b \<longleftrightarrow> a = b \<or> (a, b) \<in> (edgePairs g)\<^sup>+"

definition reachableFromRoot :: "('j, 'z) Graph_scheme \<Rightarrow> NodeId \<Rightarrow> bool" where
  "reachableFromRoot g k =
     (case rootNodeId g of None \<Rightarrow> False | Some r \<Rightarrow> reachable g r k)"

text \<open>
  Reachability by a path that leaves none of the nodes \<open>xs\<close>, and graphs whose
  edges all end in a node of the graph.
\<close>

definition reachableAvoiding ::
  "('j, 'z) Graph_scheme \<Rightarrow> NodeId list \<Rightarrow> NodeId \<Rightarrow> NodeId \<Rightarrow> bool" where
  "reachableAvoiding g xs a b \<longleftrightarrow>
     a = b \<or> (a, b) \<in> (set (filter (\<lambda>(x, y). x \<notin> set xs)
                                (map (\<lambda>e. (edge_from e, edge_to e)) (edges g))))\<^sup>+"

definition edgesClosed :: "('j, 'z) Graph_scheme \<Rightarrow> bool" where
  "edgesClosed g \<longleftrightarrow> list_all (\<lambda>e. hasNode g (edge_to e)) (edges g)"

subsection \<open>Node constructors\<close>

definition nodeFromRootDir :: "string \<Rightarrow> 'j Node" where
  "nodeFromRootDir rootDir =
     \<lparr>node_id = rootDir, node_type = ''root'', node_value = RootValue rootDir\<rparr>"

definition nodeFromDep :: "'j Dependency \<Rightarrow> 'j Node" where
  "nodeFromDep dep =
     \<lparr>node_id = dep_id dep, node_type = ''dependency'', node_value = DepValue dep\<rparr>"

definition nodeFromFile :: "File \<Rightarrow> 'j Node" where
  "nodeFromFile file =
     \<lparr>node_id = filePath file, node_type = ''file'', node_value = FileValue file\<rparr>"

definition nodeFromGlob :: "string \<Rightarrow> 'j Node" where
  "nodeFromGlob glob = \<lparr>node_id = glob, node_type = ''glob'', node_value = GlobValue glob\<rparr>"

definition nodeFromTransformerRequest :: "'j Externals \<Rightarrow> 'j TransformerRequest \<Rightarrow> 'j Node" where
  "nodeFromTransformerRequest ext req =
     \<lparr>node_id = md5FromString ext (req_filePath req @ '':'' @ JSON_stringify ext (req_env req)),
      node_type = ''transformer_request'', node_value = RequestValue req\<rparr>"

definition nodeFromAsset :: "'j Asset \<Rightarrow> 'j Node" where
  "nodeFromAsset asset =
     \<lparr>node_id = asset_id asset, node_type = ''asset'', node_value = AssetValue asset\<rparr>"

definition nodeFromConfigRequest :: "'j Externals \<Rightarrow> ConfigRequest \<Rightarrow> 'j Node" where
  "nodeFromConfigRequest ext req =
     \<lparr>node_id = md5FromString ext (cr_filePath req @ '':'' @ configType req),
      node_type = ''config_request'', node_value = ConfigRequestValue req\<rparr>"

definition nodeFromConfig :: "'j \<Rightarrow> 'j Node" where
  "nodeFromConfig config =
     \<lparr>node_id = ''TODO_MAKE_UNIQUE'', node_type = ''config'', node_value = ConfigValue config\<rparr>"

definition nodeFromDevDepRequest :: "'j Externals \<Rightarrow> 'j \<Rightarrow> 'j Node" where
  "nodeFromDevDepRequest ext devDepRequest =
     \<lparr>node_id = md5FromString ext (JSON_stringify ext devDepRequest),
      node_type = ''dev_dep_request'', node_value = DevDepRequestValue devDepRequest\<rparr>"

text \<open>
  Modelled from the spec: Dependency.js is not among the sources. The constructor
  keeps the options it is given; the id it assigns (``a process-unique id assigned at
  creation'') is the parameter \<open>dependencyId\<close>.
\<close>

definition newDependency :: "'j Externals \<Rightarrow> nat \<Rightarrow> 'j DependencyOpts \<Rightarrow> 'j Dependency" where
  "newDependency ext k opts =
     \<lparr>moduleSpecifier = moduleSpecifier opts, target = target opts, env = env opts,
      isEntry = isEntry opts, dep_id = dependencyId ext k opts\<rparr>"

definition getFileNodesFromGraph :: "('j, 'z) Graph_scheme \<Rightarrow> 'j Node list" where
  "getFileNodesFromGraph graph = filter (\<lambda>node. node_type node = ''file'') (map snd (nodes graph))"

definition getFilesFromGraph :: "('j, 'z) Graph_scheme \<Rightarrow> 'j NodeValue list" where
  "getFilesFromGraph graph = map node_value (getFileNodesFromGraph graph)"

definition getDepNodesFromGraph :: "('j, 'z) Graph_scheme \<Rightarrow> 'j Node list" where
  "getDepNodesFromGraph graph =
     filter (\<lambda>node. node_type node = ''dependency'') (map snd (nodes graph))"

definition getGlobNodesFromGraph :: "('j, 'z) Graph_scheme \<Rightarrow> 'j Node list" where
  "getGlobNodesFromGraph graph = filter (\<lambda>node. node_type node = ''glob'') (map snd (nodes graph))"

subsection \<open>Removing nodes and replacing children\<close>

text \<open>
  \<^verbatim>\<open>removeNode\<close> of AssetGraph overrides the method of Graph: it drops the node
  from \<^verbatim>\<open>incompleteNodes\<close> and calls \<^verbatim>\<open>super.removeNode\<close>. The model returns
  the graph; the value the method of Graph returns is not modelled.
\<close>

definition removeNode :: "'j AssetGraph \<Rightarrow> 'j Node \<Rightarrow> 'j AssetGraph" where
  "removeNode s node =
     Graph_removeNode (s\<lparr>incompleteNodes := AList.delete (node_id node) (incompleteNodes s)\<rparr>) node"

definition insertIfAbsent :: "(NodeId \<times> 'j Node) list \<Rightarrow> 'j Node \<Rightarrow> (NodeId \<times> 'j Node) list" where
  "insertIfAbsent ns n = (if node_id n \<in> fst ` set ns then ns else ns @ [(node_id n, n)])"

definition mkEdge :: "NodeId \<Rightarrow> string option \<Rightarrow> NodeId \<Rightarrow> Edge" where
  "mkEdge a ty b = \<lparr>edge_from = a, edge_to = b, edge_type = ty\<rparr>"

text \<open>
  Modelled from the spec: Graph.js is not among the sources.
  \<^verbatim>\<open>replace_nodes_connected_to(node, new_children, type)\<close>: ``Given the current set of
  children of node along type, compute the symmetric difference against new_children
  (matched by node id): nodes present only in the old set are disconnected; nodes
  present only in the new set are connected and inserted if absent; nodes in both sets
  are left untouched. After disconnecting a child, if it is no longer reachable from
  the Root through any edge type, it is removed from the graph together with its own
  exclusively-reachable descendants; nodes still reachable via another parent are kept.
  Returns two subgraphs: added and removed (the pruned subgraph).''

  \<open>added\<close> holds the nodes the call inserted and the edges it created: a node
  that was in the graph already is not in it (4.3: a request node is new when it is
  ``newly created (not shared with an existing request)''). A pruned node is removed
  with the \<^verbatim>\<open>removeNode\<close> of the object, which for an AssetGraph is the overriding
  method above.
\<close>

definition nodesToConnect ::
  "('j, 'z) Graph_scheme \<Rightarrow> 'j Node \<Rightarrow> 'j Node list \<Rightarrow> string option \<Rightarrow> 'j Node list" where
  "nodesToConnect g fromNode toNodes ty =
     filter (\<lambda>n. node_id n \<notin> set (childIds g (node_id fromNode) ty)) toNodes"

definition idsToDisconnect ::
  "('j, 'z) Graph_scheme \<Rightarrow> 'j Node \<Rightarrow> 'j Node list \<Rightarrow> string option \<Rightarrow> NodeId list" where
  "idsToDisconnect g fromNode toNodes ty =
     filter (\<lambda>k. k \<notin> node_id ` set toNodes) (childIds g (node_id fromNode) ty)"

text \<open>The graph with the children exchanged, before anything is pruned.\<close>

definition replaceEdges ::
  "('j, 'z) Graph_scheme \<Rightarrow> 'j Node \<Rightarrow> 'j Node list \<Rightarrow> string option \<Rightarrow> ('j, 'z) Graph_scheme" where
  "replaceEdges g fromNode toNodes ty =
     g\<lparr>nodes := foldl insertIfAbsent (nodes g) (nodesToConnect g fromNode toNodes ty),
       edges := filter (\<lambda>e. e \<notin> set (map (mkEdge (node_id fromNode) ty)
                                          (idsToDisconnect g fromNode toNodes ty))) (edges g)
                @ remdups (map (\<lambda>n. mkEdge (node_id fromNode) ty (node_id n))
                             (nodesToConnect g fromNode toNodes ty))\<rparr>"

text \<open>
  The nodes to prune: those a disconnected child reaches (the child itself is one)
  that the root does not reach.
\<close>

definition prunedNodes :: "('j, 'z) Graph_scheme \<Rightarrow> NodeId list \<Rightarrow> 'j Node list" where
  "prunedNodes g disconnected =
     filter (\<lambda>n. (\<exists>c \<in> set disconnected. reachable g c (node_id n))
                  \<and> \<not> reachableFromRoot g (node_id n)) (map snd (nodes g))"

definition replaceNodesConnectedTo ::
  "'j AssetGraph \<Rightarrow> 'j Node \<Rightarrow> 'j Node list \<Rightarrow> string option
     \<Rightarrow> 'j AssetGraph \<times> 'j Graph \<times> 'j Graph" where
  "replaceNodesConnectedTo s fromNode toNodes ty =
     (let s1 = replaceEdges s fromNode toNodes ty;
          pruned = prunedNodes s1 (idsToDisconnect s fromNode toNodes ty);
          s2 = foldl removeNode s1 pruned;
          added = \<lparr>nodes = filter (\<lambda>(k, n). \<not> hasNode s k) (nodes s1),
                   edges = filter (\<lambda>e. \<not> hasEdge s e) (edges s1), rootNodeId = None\<rparr>;
          removed = \<lparr>nodes = map (\<lambda>n. (node_id n, n)) pruned,
                     edges = filter (\<lambda>e. \<not> hasEdge s2 e) (edges s), rootNodeId = None\<rparr>
      in (s2, added, removed))"

subsection \<open>The operations of AssetGraph\<close>

definition setIncomplete :: "'j AssetGraph \<Rightarrow> 'j Node \<Rightarrow> 'j AssetGraph" where
  "setIncomplete s n = s\<lparr>incompleteNodes := AList.update (node_id n) n (incompleteNodes s)\<rparr>"

definition setInvalid :: "'j AssetGraph \<Rightarrow> 'j Node \<Rightarrow> 'j AssetGraph" where
  "setInvalid s n = s\<lparr>invalidNodes := AList.update (node_id n) n (invalidNodes s)\<rparr>"

definition deleteIncomplete :: "'j AssetGraph \<Rightarrow> NodeId \<Rightarrow> 'j AssetGraph" where
  "deleteIncomplete s k = s\<lparr>incompleteNodes := AList.delete k (incompleteNodes s)\<rparr>"

definition deleteInvalid :: "'j AssetGraph \<Rightarrow> NodeId \<Rightarrow> 'j AssetGraph" where
  "deleteInvalid s k = s\<lparr>invalidNodes := AList.delete k (invalidNodes s)\<rparr>"

record 'j AssetGraphOpts =
  entries :: "string list option"
  targets :: "'j Target list option"
  transformerRequest :: "'j TransformerRequest option"
  rootDir :: string

text \<open>
  The nested loops of \<^verbatim>\<open>initializeGraph\<close>: over the entries and, for each, over
  the targets; \<open>k\<close> counts the dependencies constructed so far.
\<close>

definition entryNodes :: "'j Externals \<Rightarrow> string list \<Rightarrow> 'j Target list \<Rightarrow> 'j Node list" where
  "entryNodes ext es ts =
     map (\<lambda>(k, entry, tgt).
            nodeFromDep (newDependency ext k
              \<lparr>moduleSpecifier = entry, target = Some tgt, env = target_env tgt, isEntry = True\<rparr>))
       (enumerate 0 (List.product es ts))"

text \<open>
  \<^verbatim>\<open>if (entries)\<close> and \<^verbatim>\<open>if (!targets)\<close> test for \<^verbatim>\<open>undefined\<close>: an empty array
  is truthy.
\<close>

definition initializeGraph ::
  "'j Externals \<Rightarrow> 'j AssetGraph \<Rightarrow> 'j AssetGraphOpts \<Rightarrow> error + 'j AssetGraph" where
  "initializeGraph ext s opts =
     (let rootNode = nodeFromRootDir (rootDir opts);
          s1 = setRootNode s rootNode
      in case (case entries opts of
                 Some es \<Rightarrow>
                   (case targets opts of
                      None \<Rightarrow> Inl (Error ''Targets are required when entries are specified'')
                    | Some ts \<Rightarrow> Inr (entryNodes ext es ts))
               | None \<Rightarrow>
                   (case transformerRequest opts of
                      Some req \<Rightarrow> Inr [nodeFromTransformerRequest ext req]
                    | None \<Rightarrow> Inr []))
         of Inl e \<Rightarrow> Inl e
          | Inr ns \<Rightarrow> Inr (foldl setIncomplete (fst (replaceNodesConnectedTo s1 rootNode ns None)) ns))"

record 'j DepUpdates =
  newRequestNode :: "'j Node option"
  prunedFiles :: "'j NodeValue list"

definition resolveDependency ::
  "'j Externals \<Rightarrow> 'j AssetGraph \<Rightarrow> 'j Dependency \<Rightarrow> 'j TransformerRequest
     \<Rightarrow> 'j DepUpdates \<times> 'j AssetGraph" where
  "resolveDependency ext s dep req =
     (let depNode = nodeFromDep dep;
          s1 = deleteInvalid (deleteIncomplete s (node_id depNode)) (node_id depNode);
          requestNode = nodeFromTransformerRequest ext req
      in case replaceNodesConnectedTo s1 depNode [requestNode] None of
           (s2, added, removed) \<Rightarrow>
             (if nodes added \<noteq> []
              then (\<lparr>newRequestNode = Some requestNode, prunedFiles = getFilesFromGraph removed\<rparr>,
                    setIncomplete s2 requestNode)
              else (\<lparr>newRequestNode = None, prunedFiles = getFilesFromGraph removed\<rparr>, s2)))"

text \<open>
  The loop over the asset nodes of \<^verbatim>\<open>resolveTransformerRequest\<close>: the dependencies
  of each asset become its children, and the dependency nodes each replacement added
  are collected.
\<close>

definition connectAssetDeps ::
  "'j AssetGraph \<times> 'j Node list \<Rightarrow> 'j Node \<Rightarrow> 'j AssetGraph \<times> 'j Node list" where
  "connectAssetDeps acc assetNode =
     (case acc of (s, newDepNodes) \<Rightarrow>
        (let depNodes = (case node_value assetNode of
                           AssetValue asset \<Rightarrow> map nodeFromDep (dependencies asset)
                         | _ \<Rightarrow> [])
         in case replaceNodesConnectedTo s assetNode depNodes None of
              (s', added, removed) \<Rightarrow> (s', newDepNodes @ getDepNodesFromGraph added)))"

record 'j CacheEntry =
  assets :: "'j Asset list"

definition resolveTransformerRequest ::
  "'j Externals \<Rightarrow> 'j AssetGraph \<Rightarrow> 'j TransformerRequest \<Rightarrow> 'j CacheEntry
     \<Rightarrow> 'j Node list \<times> 'j AssetGraph" where
  "resolveTransformerRequest ext s req cacheEntry =
     (let requestNode = nodeFromTransformerRequest ext req;
          s1 = deleteInvalid (deleteIncomplete s (node_id requestNode)) (node_id requestNode);
          fileNodes = [nodeFromFile \<lparr>filePath = req_filePath req\<rparr>];
          assetNodes = map nodeFromAsset (assets cacheEntry);
          s2 = fst (replaceNodesConnectedTo s1 requestNode assetNodes (Some ''produces''));
          s3 = fst (replaceNodesConnectedTo s2 requestNode fileNodes
                      (Some ''invalidated_by_change_to''))
      in case foldl connectAssetDeps (s3, []) assetNodes of
           (s4, newDepNodes) \<Rightarrow> (newDepNodes, foldl setIncomplete s4 newDepNodes))"

definition addConfigRequest :: "'j AssetGraph \<Rightarrow> 'j Node \<Rightarrow> 'j Node \<Rightarrow> 'j AssetGraph" where
  "addConfigRequest s configRequestNode node =
     (if \<not> hasNode s (node_id configRequestNode)
      then addEdge (addNode s configRequestNode)
             \<lparr>edge_from = node_id node, edge_to = node_id configRequestNode, edge_type = None\<rparr>
      else s)"

definition getInvalidationEdgeType :: "string \<Rightarrow> error + string" where
  "getInvalidationEdgeType action =
     (if action = ''change'' then Inr ''invalidated_by_change_to''
      else if action = ''add'' then Inr ''invalidated_by_addition_matching''
      else if action = ''unlink'' then Inr ''invalidated_by_removal_of''
      else Inl (Error (''Unrecognized invalidation action '' @ [CHR 0x22] @ action @ [CHR 0x22])))"

record Invalidation =
  inv_action :: string
  inv_pattern :: string

record 'j ConfigResult =
  result_config :: 'j
  devDepRequests :: "'j list"
  invalidations :: "Invalidation list option"

text \<open>The loop of \<^verbatim>\<open>resolveConfigRequest\<close> over the invalidations of the result.\<close>

fun addInvalidations ::
  "'j Externals \<Rightarrow> 'j Node \<Rightarrow> 'j AssetGraph \<Rightarrow> Invalidation list \<Rightarrow> error + 'j AssetGraph" where
  "addInvalidations ext configRequestNode s [] = Inr s"
| "addInvalidations ext configRequestNode s (invalidation # rest) =
     (let invalidateNode = (if isGlob ext (inv_pattern invalidation) then nodeFromGlob (inv_pattern invalidation)
                            else nodeFromFile \<lparr>filePath = inv_pattern invalidation\<rparr>)
      in case getInvalidationEdgeType (inv_action invalidation) of
           Inl e \<Rightarrow> Inl e
         | Inr edgeType \<Rightarrow>
             (let edge = \<lparr>edge_from = node_id configRequestNode, edge_to = node_id invalidateNode,
                          edge_type = Some edgeType\<rparr>
              in addInvalidations ext configRequestNode
                   (if \<not> hasEdge s edge then addEdge (addNode s invalidateNode) edge else s) rest))"

text \<open>The loop of \<^verbatim>\<open>resolveConfigRequest\<close> over the dev-dependency requests.\<close>

definition addDevDepRequest ::
  "'j Externals \<Rightarrow> 'j Node \<Rightarrow> 'j AssetGraph \<times> 'j Node list \<Rightarrow> 'j
     \<Rightarrow> 'j AssetGraph \<times> 'j Node list" where
  "addDevDepRequest ext configRequestNode acc devDepRequest =
     (case acc of (s, devDepRequestNodes) \<Rightarrow>
        (let devDepRequestNode = nodeFromDevDepRequest ext devDepRequest;
             s1 = addNode s devDepRequestNode;
             edge = \<lparr>edge_from = node_id configRequestNode, edge_to = node_id devDepRequestNode,
                     edge_type = Some ''configures''\<rparr>
         in (if \<not> hasEdge s1 edge then setIncomplete (addEdge s1 edge) devDepRequestNode else s1,
             devDepRequestNodes @ [devDepRequestNode])))"

definition resolveConfigRequest ::
  "'j Externals \<Rightarrow> 'j AssetGraph \<Rightarrow> 'j ConfigResult \<Rightarrow> 'j Node
     \<Rightarrow> error + 'j Node list \<times> 'j AssetGraph" where
  "resolveConfigRequest ext s result configRequestNode =
     (let s1 = deleteInvalid (deleteIncomplete s (node_id configRequestNode))
                 (node_id configRequestNode);
          configNode = nodeFromConfig (result_config result);
          edge = \<lparr>edge_from = node_id configRequestNode, edge_to = node_id configNode,
                  edge_type = None\<rparr>;
          s2 = (if \<not> hasEdge s1 edge then addEdge (addNode s1 configNode) edge else s1)
      in case addInvalidations ext configRequestNode s2
                (case invalidations result of None \<Rightarrow> [] | Some invs \<Rightarrow> invs) of
           Inl e \<Rightarrow> Inl e
         | Inr s3 \<Rightarrow>
             (case foldl (addDevDepRequest ext configRequestNode) (s3, []) (devDepRequests result) of
                (s4, devDepRequestNodes) \<Rightarrow> Inr (devDepRequestNodes, s4)))"

subsection \<open>Invalidation\<close>

text \<open>
  \<^verbatim>\<open>getActionNode\<close> destructures the first element of the parents it finds;
  \<^verbatim>\<open>undefined\<close> (an empty array, or a node of another type) is \<open>None\<close>. For a
  dev-dependency request with no parent the source calls
  \<^verbatim>\<open>getNodesConnectedTo(undefined)\<close>, which finds nothing or throws a TypeError in
  Graph.js; either way \<^verbatim>\<open>invalidateNode\<close> ends in a TypeError, at the latest when
  it reads \<^verbatim>\<open>actionNode.id\<close>.
\<close>

definition getActionNode :: "'j AssetGraph \<Rightarrow> 'j Node \<Rightarrow> 'j Node option" where
  "getActionNode s node =
     (if node_type node = ''dev_dep_request'' then
        (case getNodesConnectedTo s node None of
           [] \<Rightarrow> None
         | configRequestNode # _ \<Rightarrow>
             (case getNodesConnectedTo s configRequestNode None of
                [] \<Rightarrow> None
              | actionNode # _ \<Rightarrow> Some actionNode))
      else if node_type node = ''config_request'' then
        (case getNodesConnectedTo s node None of
           [] \<Rightarrow> None
         | actionNode # _ \<Rightarrow> Some actionNode)
      else None)"

definition invalidateNode :: "'j AssetGraph \<Rightarrow> 'j Node \<Rightarrow> error + 'j AssetGraph" where
  "invalidateNode s node =
     (if node_type node = ''transformer_request'' \<or> node_type node = ''dependency''
      then Inr (setInvalid s node)
      else if node_type node = ''config_request'' \<or> node_type node = ''dev_dep_request''
      then (let s1 = setInvalid s node
            in case getActionNode s1 node of
                 None \<Rightarrow> Inl TypeError
               | Some actionNode \<Rightarrow> Inr (setInvalid s1 actionNode))
      else Inl (Error (''Cannot invalidate node with unrecognized type '' @ node_type node)))"

fun invalidateNodes :: "'j AssetGraph \<Rightarrow> 'j Node list \<Rightarrow> error + 'j AssetGraph" where
  "invalidateNodes s [] = Inr s"
| "invalidateNodes s (nodeToInvalidate # rest) =
     (case invalidateNode s nodeToInvalidate of
        Inl e \<Rightarrow> Inl e
      | Inr s' \<Rightarrow> invalidateNodes s' rest)"

definition invalidateConnectedNodes ::
  "'j AssetGraph \<Rightarrow> 'j Node \<Rightarrow> string \<Rightarrow> error + 'j AssetGraph" where
  "invalidateConnectedNodes s node edgeType =
     invalidateNodes s (getNodesConnectedTo s node (Some edgeType))"

text \<open>
  The loop of \<^verbatim>\<open>respondToFSChange\<close> over the glob nodes, for an \<^verbatim>\<open>add\<close> event.
  The value of a glob node is its pattern.
\<close>

fun invalidateGlobs ::
  "'j Externals \<Rightarrow> 'j AssetGraph \<Rightarrow> string \<Rightarrow> string \<Rightarrow> 'j Node list \<Rightarrow> error + 'j AssetGraph" where
  "invalidateGlobs ext s path edgeType [] = Inr s"
| "invalidateGlobs ext s path edgeType (globNode # rest) =
     (case node_value globNode of
        GlobValue glob \<Rightarrow>
          (if isMatch ext path glob
           then (case invalidateConnectedNodes s globNode edgeType of
                   Inl e \<Rightarrow> Inl e
                 | Inr s' \<Rightarrow> invalidateGlobs ext s' path edgeType rest)
           else invalidateGlobs ext s path edgeType rest)
      | _ \<Rightarrow> Inl TypeError)"

definition respondToFSChange ::
  "'j Externals \<Rightarrow> 'j AssetGraph \<Rightarrow> string \<Rightarrow> string \<Rightarrow> error + 'j AssetGraph" where
  "respondToFSChange ext s action path =
     (case getInvalidationEdgeType action of
        Inl e \<Rightarrow> Inl e
      | Inr edgeType \<Rightarrow>
          (case (case getNode s path of
                   Some fileNode \<Rightarrow> invalidateConnectedNodes s fileNode edgeType
                 | None \<Rightarrow> Inr s) of
             Inl e \<Rightarrow> Inl e
           | Inr s1 \<Rightarrow>
               (if action = ''add''
                then invalidateGlobs ext s1 path edgeType (getGlobNodesFromGraph s1)
                else Inr s1)))"

subsection \<open>The nodes a file-system event reaches\<close>

text \<open>
  The glob nodes \<^verbatim>\<open>respondToFSChange\<close> finds matching a path, and the nodes it
  passes to \<^verbatim>\<open>invalidateNode\<close> for an event: those connected to the node whose
  id is the path and, for \<^verbatim>\<open>add\<close>, those connected to each matching glob node.
\<close>

definition matchingGlobNodes :: "'j Externals \<Rightarrow> ('j, 'z) Graph_scheme \<Rightarrow> string \<Rightarrow> 'j Node list" where
  "matchingGlobNodes ext g path =
     filter (\<lambda>globNode. case node_value globNode of
                           GlobValue glob \<Rightarrow> isMatch ext path glob
                         | _ \<Rightarrow> False)
       (getGlobNodesFromGraph g)"

definition nodesToInvalidate ::
  "'j Externals \<Rightarrow> ('j, 'z) Graph_scheme \<Rightarrow> string \<Rightarrow> string \<Rightarrow> string \<Rightarrow> 'j Node list" where
  "nodesToInvalidate ext g action edgeType path =
     (case getNode g path of
        Some fileNode \<Rightarrow> getNodesConnectedTo g fileNode (Some edgeType)
      | None \<Rightarrow> []) @
     (if action = ''add''
      then concat (map (\<lambda>globNode. getNodesConnectedTo g globNode (Some edgeType))
                     (matchingGlobNodes ext g path))
      else [])"

subsection \<open>Example graphs\<close>

text \<open>
  Concrete collaborators and graphs for the closed theorems below. The hash only
  marks its argument, and an environment is its own serialization.
\<close>

definition exampleExt :: "string Externals" where
  "exampleExt =
     \<lparr>md5FromString = (\<lambda>s. ''md5:'' @ s), JSON_stringify = (\<lambda>j. j),
      isGlob = (\<lambda>p. CHR ''*'' \<in> set p),
      isMatch = (\<lambda>path glob. glob = ''/proj/*'' \<and> take 6 path = ''/proj/''),
      dependencyId = (\<lambda>k opts. moduleSpecifier opts @ ''#'' @ env opts)\<rparr>"

definition exampleRequest :: "string TransformerRequest" where
  "exampleRequest = \<lparr>req_filePath = ''/proj/index.js'', req_env = ''node14''\<rparr>"

definition exampleT :: "string Node" where
  "exampleT = nodeFromTransformerRequest exampleExt exampleRequest"

definition exampleCR :: "string Node" where
  "exampleCR = nodeFromConfigRequest exampleExt
     \<lparr>cr_filePath = ''/proj/index.js'', configType = ''babel''\<rparr>"

definition exampleDDR :: "string Node" where
  "exampleDDR = nodeFromDevDepRequest exampleExt ''@babel/core''"

definition exampleConfigResult :: "string ConfigResult" where
  "exampleConfigResult =
     \<lparr>result_config = ''{presets: [env]}'', devDepRequests = [''@babel/core''],
      invalidations = Some [\<lparr>inv_action = ''change'', inv_pattern = ''/proj/.babelrc''\<rparr>]\<rparr>"

definition configuredGraph :: "string AssetGraph" where
  "configuredGraph =
     (case resolveConfigRequest exampleExt
             (addConfigRequest (addNode emptyAssetGraph exampleT) exampleCR exampleT)
             exampleConfigResult exampleCR of
        Inr (devDepRequestNodes, s) \<Rightarrow> s
      | Inl e \<Rightarrow> emptyAssetGraph)"


text \<open>
  The graph after a config request of the example request was added and resolved, and
  the same graph after a \<^verbatim>\<open>change\<close> of the file the config named.
\<close>

definition exampleBabelrc :: "string Node" where
  "exampleBabelrc = nodeFromFile \<lparr>filePath = ''/proj/.babelrc''\<rparr>"

definition invalidatedGraph :: "string AssetGraph" where
  "invalidatedGraph =
     configuredGraph\<lparr>invalidNodes := [(node_id exampleCR, exampleCR), (node_id exampleT, exampleT)]\<rparr>"


text \<open>
  Two config requests of the example request, resolved one after the other to two
  different config values.
\<close>

definition exampleCR2 :: "string Node" where
  "exampleCR2 = nodeFromConfigRequest exampleExt
     \<lparr>cr_filePath = ''/proj/index.js'', configType = ''postcss''\<rparr>"

definition exampleConfigResult2 :: "string ConfigResult" where
  "exampleConfigResult2 =
     \<lparr>result_config = ''{plugins: []}'', devDepRequests = [], invalidations = None\<rparr>"

definition requestedGraph :: "string AssetGraph" where
  "requestedGraph =
     addConfigRequest (addConfigRequest (addNode emptyAssetGraph exampleT) exampleCR exampleT)
       exampleCR2 exampleT"

definition oneConfigGraph :: "string AssetGraph" where
  "oneConfigGraph =
     (case resolveConfigRequest exampleExt requestedGraph exampleConfigResult exampleCR of
        Inr (devDepRequestNodes, s) \<Rightarrow> s
      | Inl e \<Rightarrow> emptyAssetGraph)"

definition twoConfigsGraph :: "string AssetGraph" where
  "twoConfigsGraph =
     (case resolveConfigRequest exampleExt oneConfigGraph exampleConfigResult2 exampleCR2 of
        Inr (devDepRequestNodes, s) \<Rightarrow> s
      | Inl e \<Rightarrow> emptyAssetGraph)"


text \<open>
  The scenario of the specification: two entries and one target in \<^verbatim>\<open>/proj\<close>.
\<close>

definition exampleOpts :: "string AssetGraphOpts" where
  "exampleOpts =
     \<lparr>entries = Some [''./index.js'', ''./main.js''], targets = Some [\<lparr>target_env = ''node14''\<rparr>],
      transformerRequest = None, rootDir = ''/proj''\<rparr>"

definition initialGraph :: "string AssetGraph" where
  "initialGraph =
     (case initializeGraph exampleExt emptyAssetGraph exampleOpts of
        Inr s \<Rightarrow> s
      | Inl e \<Rightarrow> emptyAssetGraph)"

definition exampleDep :: "string \<Rightarrow> string Dependency" where
  "exampleDep entry =
     \<lparr>moduleSpecifier = entry, target = Some \<lparr>target_env = ''node14''\<rparr>, env = ''node14'',
      isEntry = True, dep_id = entry @ ''#node14''\<rparr>"


text \<open>
  Graphs whose nodes are stored under their own ids, and the example graph after the
  first entry was resolved, after its request was transformed, and after the entry was
  resolved again, to another file.
\<close>

definition nodesKeyed :: "('j, 'z) Graph_scheme \<Rightarrow> bool" where
  "nodesKeyed g \<longleftrightarrow> list_all (\<lambda>(k, n). node_id n = k) (nodes g)"

definition exampleAsset :: "string Asset" where
  "exampleAsset =
     \<lparr>asset_id = ''asset:index'',
      dependencies = [\<lparr>moduleSpecifier = ''./b.js'', target = None, env = ''node14'',
                       isEntry = False, dep_id = ''./b.js#node14''\<rparr>]\<rparr>"

definition resolvedGraph :: "string AssetGraph" where
  "resolvedGraph = snd (resolveDependency exampleExt initialGraph (exampleDep ''./index.js'') exampleRequest)"

definition transformedGraph :: "string AssetGraph" where
  "transformedGraph =
     snd (resolveTransformerRequest exampleExt resolvedGraph exampleRequest \<lparr>assets = [exampleAsset]\<rparr>)"

definition movedRequest :: "string TransformerRequest" where
  "movedRequest = \<lparr>req_filePath = ''/proj/lib/index.js'', req_env = ''node14''\<rparr>"

definition movedGraph :: "string AssetGraph" where
  "movedGraph = snd (resolveDependency exampleExt transformedGraph (exampleDep ''./index.js'') movedRequest)"


text \<open>
  A request shared by dependencies of two parents: in the example graph after the
  transformation, the second entry and the dependency of the asset are both resolved
  to a request for \<^verbatim>\<open>/proj/main.js\<close>; then the first request is transformed again and
  its asset no longer has the dependency.
\<close>

definition mainRequest :: "string TransformerRequest" where
  "mainRequest = \<lparr>req_filePath = ''/proj/main.js'', req_env = ''node14''\<rparr>"

definition mainResolvedGraph :: "string AssetGraph" where
  "mainResolvedGraph =
     snd (resolveDependency exampleExt transformedGraph (exampleDep ''./main.js'') mainRequest)"

definition sharedGraph :: "string AssetGraph" where
  "sharedGraph =
     snd (resolveDependency exampleExt mainResolvedGraph (hd (dependencies exampleAsset)) mainRequest)"

definition unsharedGraph :: "string AssetGraph" where
  "unsharedGraph =
     snd (resolveTransformerRequest exampleExt sharedGraph exampleRequest
            \<lparr>assets = [exampleAsset\<lparr>dependencies := []\<rparr>]\<rparr>)"


section \<open>Properties\<close>

subsection \<open>Association lists and the indices\<close>

lemma keys_update: "fst ` set (AList.update k v xs) = insert k (fst ` set xs)"
  using dom_update [of k v xs] by (simp add: dom_map_of_conv_image_fst)

lemma getNodesConnectedTo_setInvalid [simp]:
  "getNodesConnectedTo (setInvalid s n) m ty = getNodesConnectedTo s m ty"
  by (simp add: getNodesConnectedTo_def setInvalid_def getNode_def)

lemma getActionNode_setInvalid [simp]: "getActionNode (setInvalid s n) m = getActionNode s m"
  by (simp add: getActionNode_def cong: list.case_cong)

subsection \<open>The invalidation table and unrecognized node types\<close>

text \<open>
  C7. The edge type of an action is \<^verbatim>\<open>invalidated_by_change_to\<close> for \<^verbatim>\<open>change\<close>,
  \<^verbatim>\<open>invalidated_by_addition_matching\<close> for \<^verbatim>\<open>add\<close> and
  \<^verbatim>\<open>invalidated_by_removal_of\<close> for \<^verbatim>\<open>unlink\<close>; for any other action
  \<^verbatim>\<open>getInvalidationEdgeType\<close> throws, and \<^verbatim>\<open>invalidateNode\<close> throws for a node
  whose type is none of \<^verbatim>\<open>dependency\<close>, \<^verbatim>\<open>transformer_request\<close>,
  \<^verbatim>\<open>config_request\<close> and \<^verbatim>\<open>dev_dep_request\<close>.
\<close>

theorem invalidation_table:
  "getInvalidationEdgeType ''change'' = Inr ''invalidated_by_change_to'' \<and>
   getInvalidationEdgeType ''add'' = Inr ''invalidated_by_addition_matching'' \<and>
   getInvalidationEdgeType ''unlink'' = Inr ''invalidated_by_removal_of'' \<and>
   (action \<notin> {''change'', ''add'', ''unlink''} \<longrightarrow>
      getInvalidationEdgeType action =
        Inl (Error (''Unrecognized invalidation action '' @ [CHR 0x22] @ action @ [CHR 0x22]))) \<and>
   (node_type node \<notin> {''dependency'', ''transformer_request'', ''config_request'',
                        ''dev_dep_request''} \<longrightarrow>
      invalidateNode s node =
        Inl (Error (''Cannot invalidate node with unrecognized type '' @ node_type node)))"
  by (simp add: getInvalidationEdgeType_def invalidateNode_def)

theorem invalidation_table_witness:
  "getInvalidationEdgeType ''rename'' =
     Inl (Error (''Unrecognized invalidation action '' @ [CHR 0x22] @ ''rename'' @ [CHR 0x22])) \<and>
   invalidateNode (emptyAssetGraph :: unit AssetGraph) (nodeFromFile \<lparr>filePath = ''/proj/a.js''\<rparr>) =
     Inl (Error ''Cannot invalidate node with unrecognized type file'')"
  using invalidation_table [of "''rename''" "nodeFromFile \<lparr>filePath = ''/proj/a.js''\<rparr> :: unit Node"
      "emptyAssetGraph :: unit AssetGraph"]
  by (simp add: nodeFromFile_def)

subsection \<open>Invalidating one node\<close>

lemma getNodesConnectedTo_invalidNodes [simp]:
  "getNodesConnectedTo (s\<lparr>invalidNodes := iv\<rparr>) m ty = getNodesConnectedTo s m ty"
  by (simp add: getNodesConnectedTo_def getNode_def)

lemma getActionNode_invalidNodes [simp]:
  "getActionNode (s\<lparr>invalidNodes := iv\<rparr>) m = getActionNode s m"
  by (simp add: getActionNode_def cong: list.case_cong)

lemma invalidateNode_frame:
  "invalidateNode s n = Inr s' \<Longrightarrow> s' = s\<lparr>invalidNodes := invalidNodes s'\<rparr>"
  by (auto simp: invalidateNode_def setInvalid_def Let_def split: if_splits option.splits)

lemma invalidateNode_cases:
  assumes "invalidateNode s n = Inr s'"
  shows "(getActionNode s n = None \<and> s' = setInvalid s n) \<or>
         (\<exists>a. getActionNode s n = Some a \<and> s' = setInvalid (setInvalid s n) a)"
proof (cases "node_type n = ''transformer_request'' \<or> node_type n = ''dependency''")
  case True
  then have "getActionNode s n = None" by (auto simp: getActionNode_def)
  with True assms show ?thesis by (simp add: invalidateNode_def)
next
  case False
  with assms show ?thesis
    by (cases "getActionNode s n") (auto simp: invalidateNode_def Let_def split: if_splits)
qed

lemma invalidateNode_keys:
  assumes "invalidateNode s n = Inr s'"
  shows "fst ` set (invalidNodes s') =
     fst ` set (invalidNodes s) \<union> {node_id n} \<union> {node_id a |a. getActionNode s n = Some a}"
  using invalidateNode_cases [OF assms]
proof (elim disjE exE conjE)
  assume "getActionNode s n = None" "s' = setInvalid s n"
  then show ?thesis by (simp add: setInvalid_def keys_update)
next
  fix a assume "getActionNode s n = Some a" "s' = setInvalid (setInvalid s n) a"
  then have "fst ` set (invalidNodes s') = insert (node_id a) (insert (node_id n) (fst ` set (invalidNodes s)))"
    and "{node_id a' |a'. getActionNode s n = Some a'} = {node_id a}"
    by (simp_all add: setInvalid_def keys_update)
  then show ?thesis by blast
qed

subsection \<open>File-system events\<close>

lemma invalidateNodes_frame:
  "invalidateNodes s ns = Inr s' \<Longrightarrow> s' = s\<lparr>invalidNodes := invalidNodes s'\<rparr>"
proof (induction ns arbitrary: s)
  case Nil
  then show ?case by simp
next
  case (Cons n ns)
  then obtain s1 where 1: "invalidateNode s n = Inr s1" and 2: "invalidateNodes s1 ns = Inr s'"
    by (auto split: sum.splits)
  from invalidateNode_frame [OF 1] Cons.IH [OF 2] show ?case
    by (metis AssetGraph.surjective AssetGraph.update_convs(2))
qed

lemma invalidateNodes_keys:
  "invalidateNodes s ns = Inr s' \<Longrightarrow>
   fst ` set (invalidNodes s') =
     fst ` set (invalidNodes s) \<union> node_id ` set ns \<union>
     {node_id a |n a. n \<in> set ns \<and> getActionNode s n = Some a}"
proof (induction ns arbitrary: s)
  case Nil
  then show ?case by simp
next
  case (Cons n ns)
  then obtain s1 where 1: "invalidateNode s n = Inr s1" and 2: "invalidateNodes s1 ns = Inr s'"
    by (auto split: sum.splits)
  from invalidateNode_frame [OF 1] have "\<And>m. getActionNode s1 m = getActionNode s m"
    by (metis getActionNode_invalidNodes)
  with Cons.IH [OF 2] invalidateNode_keys [OF 1] show ?case by auto
qed

lemma invalidateNodes_append:
  "invalidateNodes s (xs @ ys) =
     (case invalidateNodes s xs of Inl e \<Rightarrow> Inl e | Inr s1 \<Rightarrow> invalidateNodes s1 ys)"
  by (induction xs arbitrary: s) (auto split: sum.splits)

lemma invalidateGlobs_invalidateNodes:
  "invalidateGlobs ext s path edgeType gs = Inr s' \<Longrightarrow>
   invalidateNodes s
     (concat (map (\<lambda>globNode. getNodesConnectedTo s globNode (Some edgeType))
        (filter (\<lambda>globNode. case node_value globNode of
                               GlobValue glob \<Rightarrow> isMatch ext path glob | _ \<Rightarrow> False) gs))) = Inr s'"
proof (induction gs arbitrary: s)
  case Nil
  then show ?case by simp
next
  case (Cons g gs)
  from Cons.prems obtain glob where v: "node_value g = GlobValue glob"
    by (cases "node_value g") auto
  show ?case
  proof (cases "isMatch ext path glob")
    case False
    with v Cons show ?thesis by simp
  next
    case True
    with v Cons.prems obtain s1 where
      1: "invalidateNodes s (getNodesConnectedTo s g (Some edgeType)) = Inr s1" and
      2: "invalidateGlobs ext s1 path edgeType gs = Inr s'"
      by (auto simp: invalidateConnectedNodes_def split: sum.splits)
    from invalidateNodes_frame [OF 1]
    have "\<And>m ty. getNodesConnectedTo s1 m ty = getNodesConnectedTo s m ty"
      by (metis getNodesConnectedTo_invalidNodes)
    with Cons.IH [OF 2] 1 v True show ?thesis
      by (simp add: invalidateNodes_append)
  qed
qed

lemma respondToFSChange_invalidateNodes:
  assumes "respondToFSChange ext s action path = Inr s'"
  shows "\<exists>edgeType. getInvalidationEdgeType action = Inr edgeType \<and>
           invalidateNodes s (nodesToInvalidate ext s action edgeType path) = Inr s'"
proof -
  from assms obtain edgeType s1 where
    e: "getInvalidationEdgeType action = Inr edgeType" and
    1: "invalidateNodes s (case getNode s path of
          Some fileNode \<Rightarrow> getNodesConnectedTo s fileNode (Some edgeType) | None \<Rightarrow> []) = Inr s1" and
    2: "(if action = ''add''
         then invalidateGlobs ext s1 path edgeType (getGlobNodesFromGraph s1) else Inr s1) = Inr s'"
    by (auto simp: respondToFSChange_def invalidateConnectedNodes_def
        split: sum.splits option.splits)
  from invalidateNodes_frame [OF 1] have f: "s1 = s\<lparr>invalidNodes := invalidNodes s1\<rparr>" .
  have g: "\<And>m ty. getNodesConnectedTo s1 m ty = getNodesConnectedTo s m ty"
    by (subst f) simp
  have h: "getGlobNodesFromGraph s1 = getGlobNodesFromGraph s"
    by (subst f) (simp add: getGlobNodesFromGraph_def)
  show ?thesis
  proof (cases "action = ''add''")
    case False
    with 1 2 e show ?thesis by (simp add: nodesToInvalidate_def)
  next
    case True
    with 2 have "invalidateGlobs ext s1 path edgeType (getGlobNodesFromGraph s1) = Inr s'" by simp
    from invalidateGlobs_invalidateNodes [OF this] 1 e True show ?thesis
      by (simp add: nodesToInvalidate_def invalidateNodes_append g h matchingGlobNodes_def)
  qed
qed

text \<open>
  C2, as the code has it. When \<^verbatim>\<open>respondToFSChange\<close> returns, only the invalid
  index has changed, and its ids are the ids before, the ids of the nodes connected by
  the edge type of the action to the node whose id is the path (for \<^verbatim>\<open>add\<close> also
  to each glob node matching the path), and the ids of the action nodes of the config
  requests and dev-dependency requests among them. A \<^verbatim>\<open>change\<close> or \<^verbatim>\<open>unlink\<close>
  of a path that is no node id raises nothing and leaves the graph and both indices as
  they are.
\<close>

theorem respondToFSChange_invalidates:
  "(respondToFSChange ext s action path = Inr s' \<longrightarrow>
      (\<exists>edgeType. getInvalidationEdgeType action = Inr edgeType \<and>
         s' = s\<lparr>invalidNodes := invalidNodes s'\<rparr> \<and>
         fst ` set (invalidNodes s') =
           fst ` set (invalidNodes s) \<union>
           node_id ` set (nodesToInvalidate ext s action edgeType path) \<union>
           {node_id a |n a. n \<in> set (nodesToInvalidate ext s action edgeType path) \<and>
                            getActionNode s n = Some a})) \<and>
   (action \<in> {''change'', ''unlink''} \<longrightarrow> getNode s path = None \<longrightarrow>
      respondToFSChange ext s action path = Inr s)"
proof (intro conjI impI)
  assume "respondToFSChange ext s action path = Inr s'"
  from respondToFSChange_invalidateNodes [OF this] obtain edgeType where
    e: "getInvalidationEdgeType action = Inr edgeType" and
    i: "invalidateNodes s (nodesToInvalidate ext s action edgeType path) = Inr s'" by blast
  from e invalidateNodes_frame [OF i] invalidateNodes_keys [OF i]
  show "\<exists>edgeType. getInvalidationEdgeType action = Inr edgeType \<and>
         s' = s\<lparr>invalidNodes := invalidNodes s'\<rparr> \<and>
         fst ` set (invalidNodes s') =
           fst ` set (invalidNodes s) \<union>
           node_id ` set (nodesToInvalidate ext s action edgeType path) \<union>
           {node_id a |n a. n \<in> set (nodesToInvalidate ext s action edgeType path) \<and>
                            getActionNode s n = Some a}"
    by blast
next
  assume "action \<in> {''change'', ''unlink''}" "getNode s path = None"
  then show "respondToFSChange ext s action path = Inr s"
    by (auto simp: respondToFSChange_def getInvalidationEdgeType_def)
qed

text \<open>
  C2 as stated fails: the config request is the one node connected to the file by
  \<^verbatim>\<open>invalidated_by_change_to\<close>, and a \<^verbatim>\<open>change\<close> of the file marks the config
  request and also the transformer request that asked for it.
\<close>

theorem respondToFSChange_counterexample:
  "respondToFSChange exampleExt configuredGraph ''change'' ''/proj/.babelrc'' = Inr invalidatedGraph \<and>
   map fst (invalidNodes invalidatedGraph) = [node_id exampleCR, node_id exampleT] \<and>
   getNode configuredGraph ''/proj/.babelrc'' = Some exampleBabelrc \<and>
   getNodesConnectedTo configuredGraph exampleBabelrc (Some ''invalidated_by_change_to'') = [exampleCR] \<and>
   exampleT \<noteq> exampleCR \<and> invalidNodes configuredGraph = []"
  by code_simp

theorem respondToFSChange_invalidates_witness:
  "respondToFSChange exampleExt configuredGraph ''change'' ''/proj/.babelrc'' = Inr invalidatedGraph \<and>
   fst ` set (invalidNodes invalidatedGraph) = {node_id exampleCR, node_id exampleT} \<and>
   respondToFSChange exampleExt configuredGraph ''unlink'' ''/proj/index.js'' = Inr configuredGraph"
proof -
  have h: "respondToFSChange exampleExt configuredGraph ''change'' ''/proj/.babelrc'' = Inr invalidatedGraph"
    by code_simp
  have n: "getNode configuredGraph ''/proj/index.js'' = None" by code_simp
  have k: "fst ` set (invalidNodes invalidatedGraph) = {node_id exampleCR, node_id exampleT}"
    by code_simp
  from respondToFSChange_invalidates [of exampleExt configuredGraph "''unlink''" "''/proj/index.js''"] n
  have "respondToFSChange exampleExt configuredGraph ''unlink'' ''/proj/index.js'' = Inr configuredGraph"
    by simp
  with h k show ?thesis by simp
qed

subsection \<open>Removing a node\<close>

text \<open>
  C10. \<^verbatim>\<open>removeNode\<close> deletes the entry of the node from the incomplete index and
  leaves the invalid index as it is: a node removed while marked invalid is still in
  the invalid index and no longer in the graph.
\<close>

theorem removeNode_keeps_invalid:
  "incompleteNodes (removeNode s node) = AList.delete (node_id node) (incompleteNodes s) \<and>
   map_of (incompleteNodes (removeNode s node)) (node_id node) = None \<and>
   invalidNodes (removeNode s node) = invalidNodes s \<and>
   \<not> hasNode (removeNode s node) (node_id node)"
  by (simp add: removeNode_def Graph_removeNode_def hasNode_def delete_notin_dom delete_conv)

theorem removeNode_keeps_invalid_witness:
  "hasNode invalidatedGraph (node_id exampleCR) \<and>
   map_of (invalidNodes invalidatedGraph) (node_id exampleCR) = Some exampleCR \<and>
   map_of (invalidNodes (removeNode invalidatedGraph exampleCR)) (node_id exampleCR) = Some exampleCR \<and>
   \<not> hasNode (removeNode invalidatedGraph exampleCR) (node_id exampleCR)"
proof -
  have "hasNode invalidatedGraph (node_id exampleCR)"
    and "map_of (invalidNodes invalidatedGraph) (node_id exampleCR) = Some exampleCR"
    by code_simp+
  with removeNode_keeps_invalid [of invalidatedGraph exampleCR] show ?thesis by simp
qed

subsection \<open>Resolving config requests\<close>

lemma addNode_edges [simp]: "edges (addNode g n) = edges g"
  by (simp add: addNode_def)

lemma addNode_keys: "fst ` set (nodes (addNode g n)) = insert (node_id n) (fst ` set (nodes g))"
  by (simp add: addNode_def keys_update)

lemma addEdge_nodes [simp]: "nodes (addEdge g e) = nodes g"
  by (simp add: addEdge_def)

lemma addEdge_edges: "set (edges (addEdge g e)) = insert e (set (edges g))"
  by (auto simp: addEdge_def hasEdge_def)

lemma setIncomplete_graph [simp]:
  "nodes (setIncomplete s n) = nodes s" "edges (setIncomplete s n) = edges s"
  "rootNodeId (setIncomplete s n) = rootNodeId s" "invalidNodes (setIncomplete s n) = invalidNodes s"
  by (simp_all add: setIncomplete_def)

lemma deleteIncomplete_graph [simp]:
  "nodes (deleteIncomplete s k) = nodes s" "edges (deleteIncomplete s k) = edges s"
  "rootNodeId (deleteIncomplete s k) = rootNodeId s"
  "invalidNodes (deleteIncomplete s k) = invalidNodes s"
  by (simp_all add: deleteIncomplete_def)

lemma deleteInvalid_graph [simp]:
  "nodes (deleteInvalid s k) = nodes s" "edges (deleteInvalid s k) = edges s"
  "rootNodeId (deleteInvalid s k) = rootNodeId s"
  "incompleteNodes (deleteInvalid s k) = incompleteNodes s"
  by (simp_all add: deleteInvalid_def)

lemma hasNode_addNode [simp]: "hasNode (addNode g n) k \<longleftrightarrow> k = node_id n \<or> hasNode g k"
  by (simp add: hasNode_def addNode_keys)

lemma hasNode_addEdge [simp]: "hasNode (addEdge g e) k = hasNode g k"
  by (simp add: hasNode_def)

lemma hasNode_setIncomplete [simp]: "hasNode (setIncomplete s n) k = hasNode s k"
  by (simp add: hasNode_def)

lemma hasNode_delete [simp]:
  "hasNode (deleteIncomplete s j) k = hasNode s k" "hasNode (deleteInvalid s j) k = hasNode s k"
  by (simp_all add: hasNode_def)

lemma hasEdge_addEdge [simp]: "hasEdge (addEdge g e) e' \<longleftrightarrow> e' = e \<or> hasEdge g e'"
  by (auto simp: hasEdge_def addEdge_edges)

lemma hasEdge_addNode [simp]: "hasEdge (addNode g n) e = hasEdge g e"
  by (simp add: hasEdge_def)

lemma hasEdge_setIncomplete [simp]: "hasEdge (setIncomplete s n) e = hasEdge s e"
  by (simp add: hasEdge_def)

lemma hasEdge_delete [simp]:
  "hasEdge (deleteIncomplete s j) e = hasEdge s e" "hasEdge (deleteInvalid s j) e = hasEdge s e"
  by (simp_all add: hasEdge_def)

lemma addInvalidations_mono:
  "addInvalidations ext cr s invs = Inr s' \<Longrightarrow>
   (hasEdge s e \<longrightarrow> hasEdge s' e) \<and> (hasNode s k \<longrightarrow> hasNode s' k)"
proof (induction invs arbitrary: s)
  case Nil
  then show ?case by simp
next
  case (Cons i invs)
  from Cons.prems obtain edgeType where
    t: "getInvalidationEdgeType (inv_action i) = Inr edgeType"
    by (cases "getInvalidationEdgeType (inv_action i)") (auto simp: Let_def)
  define n :: "'a Node" where
    "n = (if isGlob ext (inv_pattern i) then nodeFromGlob (inv_pattern i)
          else nodeFromFile \<lparr>filePath = inv_pattern i\<rparr>)"
  define c where "c = \<lparr>edge_from = node_id cr, edge_to = node_id n, edge_type = Some edgeType\<rparr>"
  define s1 where "s1 = (if \<not> hasEdge s c then addEdge (addNode s n) c else s)"
  have 1: "(hasEdge s e \<longrightarrow> hasEdge s1 e) \<and> (hasNode s k \<longrightarrow> hasNode s1 k)"
    by (simp add: s1_def)
  from Cons.prems t have 2: "addInvalidations ext cr s1 invs = Inr s'"
    by (auto simp: Let_def s1_def c_def n_def split: if_splits)
  from Cons.IH [OF 2] 1 show ?case by blast
qed

lemma addDevDepRequests_mono:
  "foldl (addDevDepRequest ext cr) (s, acc) ds = (s', acc') \<Longrightarrow>
   (hasEdge s e \<longrightarrow> hasEdge s' e) \<and> (hasNode s k \<longrightarrow> hasNode s' k)"
proof (induction ds arbitrary: s acc)
  case Nil
  then show ?case by simp
next
  case (Cons d ds)
  obtain s1 acc1 where 1: "addDevDepRequest ext cr (s, acc) d = (s1, acc1)" by force
  then have "(hasEdge s e \<longrightarrow> hasEdge s1 e) \<and> (hasNode s k \<longrightarrow> hasNode s1 k)"
    by (auto simp: addDevDepRequest_def Let_def split: if_splits)
  moreover from Cons.prems 1 have "foldl (addDevDepRequest ext cr) (s1, acc1) ds = (s', acc')"
    by simp
  from Cons.IH [OF this] have
    "(hasEdge s1 e \<longrightarrow> hasEdge s' e) \<and> (hasNode s1 k \<longrightarrow> hasNode s' k)" .
  ultimately show ?case by blast
qed

lemma resolveConfigRequest_links:
  assumes "resolveConfigRequest ext s result request = Inr (devDepRequestNodes, s')"
  shows "hasEdge s e \<Longrightarrow> hasEdge s' e"
    and "hasNode s k \<Longrightarrow> hasNode s' k"
    and "hasEdge s' (mkEdge (node_id request) None ''TODO_MAKE_UNIQUE'')"
    and "\<not> hasEdge s (mkEdge (node_id request) None ''TODO_MAKE_UNIQUE'') \<Longrightarrow>
         hasNode s' ''TODO_MAKE_UNIQUE''"
proof -
  define c where "c = mkEdge (node_id request) None ''TODO_MAKE_UNIQUE''"
  define s1 where "s1 = deleteInvalid (deleteIncomplete s (node_id request)) (node_id request)"
  define s2 where "s2 = (if \<not> hasEdge s1 c then addEdge (addNode s1 (nodeFromConfig (result_config result))) c else s1)"
  have "resolveConfigRequest ext s result request =
    (case addInvalidations ext request s2
                (case invalidations result of None \<Rightarrow> [] | Some invs \<Rightarrow> invs) of
           Inl e \<Rightarrow> Inl e
         | Inr s3 \<Rightarrow>
             (case foldl (addDevDepRequest ext request) (s3, []) (devDepRequests result) of
                (s4, devDepRequestNodes) \<Rightarrow> Inr (devDepRequestNodes, s4)))"
    by (simp add: resolveConfigRequest_def Let_def s2_def s1_def c_def mkEdge_def nodeFromConfig_def)
  with assms obtain s3 where
    3: "addInvalidations ext request s2
          (case invalidations result of None \<Rightarrow> [] | Some invs \<Rightarrow> invs) = Inr s3" and
    4: "foldl (addDevDepRequest ext request) (s3, []) (devDepRequests result) = (s', devDepRequestNodes)"
    by (auto split: sum.splits prod.splits)
  have a: "\<And>e. hasEdge s e \<Longrightarrow> hasEdge s2 e" "\<And>k. hasNode s k \<Longrightarrow> hasNode s2 k" "hasEdge s2 c"
    by (auto simp: s2_def s1_def)
  have b: "\<not> hasEdge s c \<Longrightarrow> hasNode s2 ''TODO_MAKE_UNIQUE''"
    by (simp add: s2_def s1_def nodeFromConfig_def)
  from addInvalidations_mono [OF 3] addDevDepRequests_mono [OF 4] a
  show "hasEdge s e \<Longrightarrow> hasEdge s' e" and "hasNode s k \<Longrightarrow> hasNode s' k"
    and "hasEdge s' (mkEdge (node_id request) None ''TODO_MAKE_UNIQUE'')"
    unfolding c_def by blast+
  from addInvalidations_mono [OF 3] addDevDepRequests_mono [OF 4] b
  show "\<not> hasEdge s (mkEdge (node_id request) None ''TODO_MAKE_UNIQUE'') \<Longrightarrow>
         hasNode s' ''TODO_MAKE_UNIQUE''"
    unfolding c_def by blast
qed

text \<open>
  C9. \<^verbatim>\<open>nodeFromConfig\<close> gives every config value the node id
  \<^verbatim>\<open>TODO_MAKE_UNIQUE\<close>, so two config values have the same node id, and after two
  config requests were resolved, whatever their results, both have a default edge to
  the node of that one id (which is a node of the graph when the first request had
  no such edge before).
\<close>

theorem config_node_shared:
  "node_id (nodeFromConfig config1) = ''TODO_MAKE_UNIQUE'' \<and>
   node_id (nodeFromConfig config1) = node_id (nodeFromConfig config2) \<and>
   (resolveConfigRequest ext s result1 request1 = Inr (devDepRequestNodes1, s1) \<longrightarrow>
    resolveConfigRequest ext s1 result2 request2 = Inr (devDepRequestNodes2, s2) \<longrightarrow>
      hasEdge s2 (mkEdge (node_id request1) None ''TODO_MAKE_UNIQUE'') \<and>
      hasEdge s2 (mkEdge (node_id request2) None ''TODO_MAKE_UNIQUE'') \<and>
      (\<not> hasEdge s (mkEdge (node_id request1) None ''TODO_MAKE_UNIQUE'') \<longrightarrow>
         hasNode s2 ''TODO_MAKE_UNIQUE''))"
proof (intro conjI impI)
  assume 1: "resolveConfigRequest ext s result1 request1 = Inr (devDepRequestNodes1, s1)"
    and 2: "resolveConfigRequest ext s1 result2 request2 = Inr (devDepRequestNodes2, s2)"
  from resolveConfigRequest_links(3) [OF 1] resolveConfigRequest_links(1) [OF 2]
  show "hasEdge s2 (mkEdge (node_id request1) None ''TODO_MAKE_UNIQUE'')"
    by (simp add: nodeFromConfig_def)
  from resolveConfigRequest_links(3) [OF 2]
  show "hasEdge s2 (mkEdge (node_id request2) None ''TODO_MAKE_UNIQUE'')"
    by (simp add: nodeFromConfig_def)
  assume "\<not> hasEdge s (mkEdge (node_id request1) None ''TODO_MAKE_UNIQUE'')"
  from resolveConfigRequest_links(4) [OF 1 this] resolveConfigRequest_links(2) [OF 2]
  show "hasNode s2 ''TODO_MAKE_UNIQUE''" by blast
qed (simp_all add: nodeFromConfig_def)

theorem config_node_shared_witness:
  "resolveConfigRequest exampleExt requestedGraph exampleConfigResult exampleCR =
     Inr ([exampleDDR], oneConfigGraph) \<and>
   resolveConfigRequest exampleExt oneConfigGraph exampleConfigResult2 exampleCR2 =
     Inr ([], twoConfigsGraph) \<and>
   hasEdge twoConfigsGraph (mkEdge (node_id exampleCR) None ''TODO_MAKE_UNIQUE'') \<and>
   hasEdge twoConfigsGraph (mkEdge (node_id exampleCR2) None ''TODO_MAKE_UNIQUE'') \<and>
   hasNode twoConfigsGraph ''TODO_MAKE_UNIQUE'' \<and>
   filter (\<lambda>n. node_type n = ''config'') (map snd (nodes twoConfigsGraph)) =
     [nodeFromConfig (result_config exampleConfigResult2)] \<and>
   result_config exampleConfigResult \<noteq> result_config exampleConfigResult2"
proof -
  have 1: "resolveConfigRequest exampleExt requestedGraph exampleConfigResult exampleCR =
     Inr ([exampleDDR], oneConfigGraph)" by code_simp
  have 2: "resolveConfigRequest exampleExt oneConfigGraph exampleConfigResult2 exampleCR2 =
     Inr ([], twoConfigsGraph)" by code_simp
  have 3: "\<not> hasEdge requestedGraph (mkEdge (node_id exampleCR) None ''TODO_MAKE_UNIQUE'')"
    by code_simp
  have 4: "filter (\<lambda>n. node_type n = ''config'') (map snd (nodes twoConfigsGraph)) =
     [nodeFromConfig (result_config exampleConfigResult2)]" by code_simp
  have 5: "result_config exampleConfigResult \<noteq> result_config exampleConfigResult2" by code_simp
  from config_node_shared [where ?config1.0 = "result_config exampleConfigResult"
      and ?config2.0 = "result_config exampleConfigResult2" and ext = exampleExt
      and s = requestedGraph and ?result1.0 = exampleConfigResult and ?request1.0 = exampleCR
      and ?devDepRequestNodes1.0 = "[exampleDDR]" and ?s1.0 = oneConfigGraph
      and ?result2.0 = exampleConfigResult2 and ?request2.0 = exampleCR2
      and ?devDepRequestNodes2.0 = "[]" and ?s2.0 = twoConfigsGraph] 1 2 3
  have "hasEdge twoConfigsGraph (mkEdge (node_id exampleCR) None ''TODO_MAKE_UNIQUE'') \<and>
        hasEdge twoConfigsGraph (mkEdge (node_id exampleCR2) None ''TODO_MAKE_UNIQUE'') \<and>
        hasNode twoConfigsGraph ''TODO_MAKE_UNIQUE''"
    by simp
  with 1 2 4 5 show ?thesis by simp
qed

subsection \<open>Replacing the children of a node\<close>

lemma reachable_rtrancl: "reachable g a b \<longleftrightarrow> (a, b) \<in> (edgePairs g)\<^sup>*"
  by (auto simp: reachable_def rtrancl_eq_or_trancl)

lemma reachableAvoiding_rtrancl:
  "reachableAvoiding g xs a b \<longleftrightarrow> (a, b) \<in> (edgePairs g - {(x, y). x \<in> set xs})\<^sup>*"
proof -
  have "set (filter (\<lambda>(x, y). x \<notin> set xs) (map (\<lambda>e. (edge_from e, edge_to e)) (edges g)))
        = edgePairs g - {(x, y). x \<in> set xs}"
    by (auto simp: edgePairs_def)
  then show ?thesis by (auto simp: reachableAvoiding_def rtrancl_eq_or_trancl)
qed

lemma mkEdge_sel [simp]:
  "edge_from (mkEdge a ty b) = a" "edge_to (mkEdge a ty b) = b" "edge_type (mkEdge a ty b) = ty"
  by (simp_all add: mkEdge_def)

lemma mkEdge_eta: "mkEdge (edge_from e) (edge_type e) (edge_to e) = e"
  by (cases e) (simp add: mkEdge_def)

lemma mkEdge_inject [simp]: "mkEdge a ty b = mkEdge a' ty' b' \<longleftrightarrow> a = a' \<and> ty = ty' \<and> b = b'"
  by (auto simp: mkEdge_def)

lemma edgePairs_iff: "(a, b) \<in> edgePairs g \<longleftrightarrow> (\<exists>ty. mkEdge a ty b \<in> set (edges g))"
proof
  assume "(a, b) \<in> edgePairs g"
  then obtain e where "e \<in> set (edges g)" "edge_from e = a" "edge_to e = b"
    by (auto simp: edgePairs_def)
  then have "mkEdge a (edge_type e) b \<in> set (edges g)" by (metis mkEdge_eta)
  then show "\<exists>ty. mkEdge a ty b \<in> set (edges g)" ..
next
  assume "\<exists>ty. mkEdge a ty b \<in> set (edges g)"
  then show "(a, b) \<in> edgePairs g" by (force simp: edgePairs_def)
qed

lemma childIds_iff: "k \<in> set (childIds g a ty) \<longleftrightarrow> mkEdge a ty k \<in> set (edges g)"
proof
  assume "k \<in> set (childIds g a ty)"
  then obtain e where "e \<in> set (edges g)" "edge_from e = a" "edge_type e = ty" "edge_to e = k"
    by (auto simp: childIds_def)
  then show "mkEdge a ty k \<in> set (edges g)" by (metis mkEdge_eta)
next
  assume "mkEdge a ty k \<in> set (edges g)"
  then show "k \<in> set (childIds g a ty)" by (force simp: childIds_def)
qed


subsubsection \<open>Removing nodes\<close>

lemma removeNode_fields:
  "nodes (removeNode s n) = filter (\<lambda>p. fst p \<noteq> node_id n) (nodes s)"
  "edges (removeNode s n) = filter (\<lambda>e. edge_from e \<noteq> node_id n \<and> edge_to e \<noteq> node_id n) (edges s)"
  "rootNodeId (removeNode s n) = rootNodeId s"
  "invalidNodes (removeNode s n) = invalidNodes s"
  "incompleteNodes (removeNode s n) = filter (\<lambda>p. fst p \<noteq> node_id n) (incompleteNodes s)"
proof -
  have "AList.delete k xs = filter (\<lambda>p. fst p \<noteq> k) xs" for k :: NodeId and xs :: "(NodeId \<times> 'a Node) list"
    by (induction xs) auto
  then show "nodes (removeNode s n) = filter (\<lambda>p. fst p \<noteq> node_id n) (nodes s)"
    "incompleteNodes (removeNode s n) = filter (\<lambda>p. fst p \<noteq> node_id n) (incompleteNodes s)"
    by (simp_all add: removeNode_def Graph_removeNode_def)
qed (simp_all add: removeNode_def Graph_removeNode_def)

lemma foldl_removeNode_nodes:
  "nodes (foldl removeNode s ns) = filter (\<lambda>p. fst p \<notin> node_id ` set ns) (nodes s)"
proof (induction ns arbitrary: s)
  case Nil
  then show ?case by simp
next
  case (Cons n ns)
  have "filter (\<lambda>p. fst p \<notin> node_id ` set ns) (filter (\<lambda>p. fst p \<noteq> node_id n) xs)
        = filter (\<lambda>p. fst p \<notin> node_id ` set (n # ns)) xs" for xs :: "(NodeId \<times> 'a Node) list"
    by (induction xs) auto
  with Cons show ?case by (simp add: removeNode_fields)
qed

lemma foldl_removeNode_incomplete:
  "incompleteNodes (foldl removeNode s ns) =
     filter (\<lambda>p. fst p \<notin> node_id ` set ns) (incompleteNodes s)"
proof (induction ns arbitrary: s)
  case Nil
  then show ?case by simp
next
  case (Cons n ns)
  have "filter (\<lambda>p. fst p \<notin> node_id ` set ns) (filter (\<lambda>p. fst p \<noteq> node_id n) xs)
        = filter (\<lambda>p. fst p \<notin> node_id ` set (n # ns)) xs" for xs :: "(NodeId \<times> 'a Node) list"
    by (induction xs) auto
  with Cons show ?case by (simp add: removeNode_fields)
qed

lemma foldl_removeNode_edges:
  "edges (foldl removeNode s ns) =
     filter (\<lambda>e. edge_from e \<notin> node_id ` set ns \<and> edge_to e \<notin> node_id ` set ns) (edges s)"
proof (induction ns arbitrary: s)
  case Nil
  then show ?case by simp
next
  case (Cons n ns)
  have "filter (\<lambda>e. edge_from e \<notin> node_id ` set ns \<and> edge_to e \<notin> node_id ` set ns)
          (filter (\<lambda>e. edge_from e \<noteq> node_id n \<and> edge_to e \<noteq> node_id n) xs)
        = filter (\<lambda>e. edge_from e \<notin> node_id ` set (n # ns) \<and> edge_to e \<notin> node_id ` set (n # ns)) xs"
    for xs :: "Edge list"
    by (induction xs) auto
  with Cons show ?case by (simp add: removeNode_fields)
qed

lemma foldl_removeNode_frame [simp]:
  "rootNodeId (foldl removeNode s ns) = rootNodeId s"
  "invalidNodes (foldl removeNode s ns) = invalidNodes s"
  by (induction ns arbitrary: s) (simp_all add: removeNode_fields)

subsubsection \<open>Exchanging the children\<close>

lemma foldl_insertIfAbsent:
  "\<exists>zs. foldl insertIfAbsent xs ns = xs @ zs \<and> set zs \<subseteq> (\<lambda>n. (node_id n, n)) ` set ns
     \<and> fst ` set zs = node_id ` set ns - fst ` set xs"
proof (induction ns arbitrary: xs)
  case Nil
  then show ?case by simp
next
  case (Cons n ns)
  show ?case
  proof (cases "node_id n \<in> fst ` set xs")
    case True
    with Cons [of xs] show ?thesis by (auto simp: insertIfAbsent_def)
  next
    case False
    from Cons [of "xs @ [(node_id n, n)]"] obtain zs where
      z: "foldl insertIfAbsent (xs @ [(node_id n, n)]) ns = (xs @ [(node_id n, n)]) @ zs"
      "set zs \<subseteq> (\<lambda>n. (node_id n, n)) ` set ns"
      "fst ` set zs = node_id ` set ns - fst ` set (xs @ [(node_id n, n)])" by blast
    with False have "foldl insertIfAbsent xs (n # ns) = xs @ ((node_id n, n) # zs)"
      by (simp add: insertIfAbsent_def)
    moreover from z have "set ((node_id n, n) # zs) \<subseteq> (\<lambda>n. (node_id n, n)) ` set (n # ns)"
      by auto
    moreover from z False have "fst ` set ((node_id n, n) # zs) = node_id ` set (n # ns) - fst ` set xs"
      by auto
    ultimately show ?thesis by blast
  qed
qed


lemma rootNodeId_replaceEdges [simp]: "rootNodeId (replaceEdges g f ns ty) = rootNodeId g"
  by (simp add: replaceEdges_def)

lemma set_edges_replaceEdges:
  "set (edges (replaceEdges g f ns ty)) =
     {e \<in> set (edges g). e \<notin> mkEdge (node_id f) ty ` set (idsToDisconnect g f ns ty)} \<union>
     (\<lambda>n. mkEdge (node_id f) ty (node_id n)) ` set (nodesToConnect g f ns ty)"
  by (simp add: replaceEdges_def)

lemma mkEdge_mem_replaceEdges:
  "mkEdge (node_id f) ty k \<in> set (edges (replaceEdges g f ns ty)) \<longleftrightarrow> k \<in> node_id ` set ns"
proof -
  have 1: "mkEdge (node_id f) ty k \<in> mkEdge (node_id f) ty ` X \<longleftrightarrow> k \<in> X" for X
    by (simp add: image_iff)
  have 2: "mkEdge (node_id f) ty k \<in> (\<lambda>n. mkEdge (node_id f) ty (node_id n)) ` X
           \<longleftrightarrow> k \<in> node_id ` X" for X
    by (simp add: image_iff)
  have 3: "mkEdge (node_id f) ty k \<in> set (edges g) \<longleftrightarrow> k \<in> set (childIds g (node_id f) ty)"
    by (simp add: childIds_iff)
  show ?thesis
    unfolding set_edges_replaceEdges Un_iff mem_Collect_eq 1 2 3
    by (auto simp: idsToDisconnect_def nodesToConnect_def)
qed

lemma other_mem_replaceEdges:
  assumes "edge_from e \<noteq> node_id f \<or> edge_type e \<noteq> ty"
  shows "e \<in> set (edges (replaceEdges g f ns ty)) \<longleftrightarrow> e \<in> set (edges g)"
proof -
  from assms have "e \<notin> mkEdge (node_id f) ty ` X" for X by auto
  moreover from assms have "e \<notin> (\<lambda>n. mkEdge (node_id f) ty (node_id n)) ` X" for X by auto
  ultimately show ?thesis unfolding set_edges_replaceEdges by blast
qed

lemma edge_mem_replaceEdges:
  "e \<in> set (edges (replaceEdges g f ns ty)) \<longleftrightarrow>
     (if edge_from e = node_id f \<and> edge_type e = ty then edge_to e \<in> node_id ` set ns
      else e \<in> set (edges g))"
proof (cases "edge_from e = node_id f \<and> edge_type e = ty")
  case False
  then show ?thesis using other_mem_replaceEdges [of e f ty g ns] by auto
next
  case True
  then have "e = mkEdge (node_id f) ty (edge_to e)" by (metis mkEdge_eta)
  with mkEdge_mem_replaceEdges [of f ty "edge_to e" g ns] True show ?thesis by simp
qed

lemma hasNode_replaceEdges:
  "hasNode (replaceEdges g f ns ty) k \<longleftrightarrow>
     hasNode g k \<or> k \<in> node_id ` set (nodesToConnect g f ns ty)"
proof -
  from foldl_insertIfAbsent [of "nodes g" "nodesToConnect g f ns ty"] obtain zs where
    "foldl insertIfAbsent (nodes g) (nodesToConnect g f ns ty) = nodes g @ zs"
    "fst ` set zs = node_id ` set (nodesToConnect g f ns ty) - fst ` set (nodes g)" by blast
  then show ?thesis by (auto simp: hasNode_def replaceEdges_def image_Un)
qed


subsubsection \<open>Pruning\<close>

lemma reachableFromRoot_step:
  "reachableFromRoot g a \<Longrightarrow> (a, b) \<in> edgePairs g \<Longrightarrow> reachableFromRoot g b"
  by (auto simp: reachableFromRoot_def reachable_rtrancl split: option.splits
      intro: rtrancl_into_rtrancl)

lemma pruned_unreachable:
  "k \<in> node_id ` set (prunedNodes g ds) \<Longrightarrow> \<not> reachableFromRoot g k"
  by (auto simp: prunedNodes_def)

lemma prune_keeps_edge:
  assumes "e \<in> set (edges g)" and "reachableFromRoot g (edge_from e)"
  shows "e \<in> set (edges (foldl removeNode g (prunedNodes g ds)))"
proof -
  from assms have "(edge_from e, edge_to e) \<in> edgePairs g" by (auto simp: edgePairs_def)
  with assms(2) have "reachableFromRoot g (edge_to e)" by (rule reachableFromRoot_step)
  with assms pruned_unreachable [of _ g ds] show ?thesis
    by (auto simp: foldl_removeNode_edges)
qed

lemma prune_edges_subset:
  "e \<in> set (edges (foldl removeNode g (prunedNodes g ds))) \<Longrightarrow> e \<in> set (edges g)"
  by (simp add: foldl_removeNode_edges)

lemma prune_keeps_root_path:
  assumes "rootNodeId g = Some r" and "(r, t) \<in> (edgePairs g \<inter> R)\<^sup>*"
  shows "(r, t) \<in> (edgePairs (foldl removeNode g (prunedNodes g ds)) \<inter> R)\<^sup>*
         \<and> reachableFromRoot g t"
  using assms(2)
proof (induction rule: rtrancl_induct)
  case base
  from assms(1) show ?case by (simp add: reachableFromRoot_def reachable_def)
next
  case (step y z)
  then have yz: "(y, z) \<in> edgePairs g" "(y, z) \<in> R" and y: "reachableFromRoot g y" by auto
  from yz(1) obtain e where e: "e \<in> set (edges g)" "edge_from e = y" "edge_to e = z"
    by (auto simp: edgePairs_def)
  with y have "e \<in> set (edges (foldl removeNode g (prunedNodes g ds)))"
    by (simp add: prune_keeps_edge)
  with e have "(y, z) \<in> edgePairs (foldl removeNode g (prunedNodes g ds))"
    by (force simp: edgePairs_def)
  with yz step.IH reachableFromRoot_step [OF y yz(1)] show ?case
    by (auto intro: rtrancl_into_rtrancl)
qed

lemma hasNode_prune:
  "hasNode (foldl removeNode g (prunedNodes g ds)) k \<longleftrightarrow>
     hasNode g k \<and> k \<notin> node_id ` set (prunedNodes g ds)"
  by (auto simp: hasNode_def foldl_removeNode_nodes)

lemma prune_keeps_node:
  "hasNode g k \<Longrightarrow> reachableFromRoot g k \<Longrightarrow> hasNode (foldl removeNode g (prunedNodes g ds)) k"
  using pruned_unreachable [of k g ds] by (auto simp: hasNode_prune)

subsubsection \<open>Paths that arrive for the first time\<close>

lemma first_arrival:
  assumes "(r, t) \<in> R\<^sup>*"
  shows "(r, t) \<in> (R - {(x, y). x = t})\<^sup>*"
proof -
  have "(r, x) \<in> (R - {(x, y). x = t})\<^sup>* \<or> (r, t) \<in> (R - {(x, y). x = t})\<^sup>*"
    if "(r, x) \<in> R\<^sup>*" for x
    using that
  proof (induction rule: rtrancl_induct)
    case base
    then show ?case by simp
  next
    case (step y z)
    show ?case
    proof (cases "y = t")
      case True
      with step.IH show ?thesis by auto
    next
      case False
      with step.hyps(2) have "(y, z) \<in> R - {(x, y). x = t}" by simp
      with step.IH show ?thesis by (auto intro: rtrancl_into_rtrancl)
    qed
  qed
  from this [OF assms] show ?thesis by blast
qed

lemma reachableAvoiding_target:
  "reachableAvoiding g xs r t \<Longrightarrow> reachableAvoiding g (t # xs) r t"
proof -
  assume "reachableAvoiding g xs r t"
  then have "(r, t) \<in> (edgePairs g - {(x, y). x \<in> set xs})\<^sup>*"
    by (simp add: reachableAvoiding_rtrancl)
  from first_arrival [OF this]
  have "(r, t) \<in> (edgePairs g - {(x, y). x \<in> set xs} - {(x, y). x = t})\<^sup>*" .
  moreover have "edgePairs g - {(x, y). x \<in> set xs} - {(x, y). x = t}
                 = edgePairs g - {(x, y). x \<in> set (t # xs)}" by auto
  ultimately show ?thesis by (simp add: reachableAvoiding_rtrancl)
qed

lemma reachableAvoiding_reachable:
  "reachableAvoiding g xs a b \<Longrightarrow> reachable g a b"
  unfolding reachableAvoiding_rtrancl reachable_rtrancl
  by (rule rtrancl_mono [THEN subsetD, rotated]) auto

lemma reachableAvoiding_Nil: "reachableAvoiding g [] a b = reachable g a b"
  by (simp add: reachableAvoiding_rtrancl reachable_rtrancl)


subsubsection \<open>The replacement as a whole\<close>

lemma replace_fst:
  "fst (replaceNodesConnectedTo s f ns ty) =
     foldl removeNode (replaceEdges s f ns ty)
       (prunedNodes (replaceEdges s f ns ty) (idsToDisconnect s f ns ty))"
  by (simp add: replaceNodesConnectedTo_def Let_def)

lemma replace_added:
  "nodes (fst (snd (replaceNodesConnectedTo s f ns ty))) =
     filter (\<lambda>(k, n). \<not> hasNode s k) (nodes (replaceEdges s f ns ty))"
  by (simp add: replaceNodesConnectedTo_def Let_def)

lemma replace_removed:
  "nodes (snd (snd (replaceNodesConnectedTo s f ns ty))) =
     map (\<lambda>n. (node_id n, n))
       (prunedNodes (replaceEdges s f ns ty) (idsToDisconnect s f ns ty))"
  by (simp add: replaceNodesConnectedTo_def Let_def)

lemma replace_frame [simp]:
  "rootNodeId (fst (replaceNodesConnectedTo s f ns ty)) = rootNodeId s"
  "invalidNodes (fst (replaceNodesConnectedTo s f ns ty)) = invalidNodes s"
  by (simp_all add: replace_fst replaceEdges_def)

lemma replace_incomplete:
  "set (incompleteNodes (fst (replaceNodesConnectedTo s f ns ty))) \<subseteq> set (incompleteNodes s)"
  by (auto simp: replace_fst foldl_removeNode_incomplete replaceEdges_def)

lemma replaceEdges_avoid_pairs:
  assumes "node_id f \<in> set xs"
  shows "edgePairs (replaceEdges g f ns ty) - {(x, y). x \<in> set xs}
         = edgePairs g - {(x, y). x \<in> set xs}"
proof -
  have "(a, b) \<in> edgePairs (replaceEdges g f ns ty) \<longleftrightarrow> (a, b) \<in> edgePairs g"
    if "a \<notin> set xs" for a b
  proof -
    from that assms have "a \<noteq> node_id f" by auto
    then have "mkEdge a ty' b \<in> set (edges (replaceEdges g f ns ty))
               \<longleftrightarrow> mkEdge a ty' b \<in> set (edges g)" for ty'
      by (simp add: other_mem_replaceEdges)
    then show ?thesis by (simp add: edgePairs_iff)
  qed
  then show ?thesis by auto
qed

lemma replace_keeps_avoiding:
  assumes "rootNodeId s = Some r" and "node_id f \<in> set xs" and "reachableAvoiding s xs r t"
  shows "reachableAvoiding (fst (replaceNodesConnectedTo s f ns ty)) xs r t"
    and "reachableFromRoot (replaceEdges s f ns ty) t"
proof -
  let ?g = "replaceEdges s f ns ty"
  let ?R = "- {(x, y). x \<in> set xs} :: (NodeId \<times> NodeId) set"
  from assms(3) have "(r, t) \<in> (edgePairs s - {(x, y). x \<in> set xs})\<^sup>*"
    by (simp add: reachableAvoiding_rtrancl)
  with replaceEdges_avoid_pairs [OF assms(2), of s ns ty]
  have "(r, t) \<in> (edgePairs ?g - {(x, y). x \<in> set xs})\<^sup>*" by simp
  then have p: "(r, t) \<in> (edgePairs ?g \<inter> ?R)\<^sup>*" by (simp add: Diff_eq)
  from assms(1) have "rootNodeId ?g = Some r" by simp
  from prune_keeps_root_path [OF this p, of "idsToDisconnect s f ns ty"]
  show "reachableAvoiding (fst (replaceNodesConnectedTo s f ns ty)) xs r t"
    and "reachableFromRoot ?g t"
    by (simp_all add: reachableAvoiding_rtrancl replace_fst Diff_eq)
qed

lemma replace_children_subset:
  "mkEdge (node_id f) ty k \<in> set (edges (fst (replaceNodesConnectedTo s f ns ty)))
   \<Longrightarrow> k \<in> node_id ` set ns"
  unfolding replace_fst
  by (drule prune_edges_subset) (simp add: mkEdge_mem_replaceEdges)

lemma replace_children:
  assumes "reachableFromRoot (replaceEdges s f ns ty) (node_id f)"
  shows "mkEdge (node_id f) ty k \<in> set (edges (fst (replaceNodesConnectedTo s f ns ty)))
         \<longleftrightarrow> k \<in> node_id ` set ns"
proof
  assume "k \<in> node_id ` set ns"
  then have "mkEdge (node_id f) ty k \<in> set (edges (replaceEdges s f ns ty))"
    by (simp add: mkEdge_mem_replaceEdges)
  with assms show "mkEdge (node_id f) ty k \<in> set (edges (fst (replaceNodesConnectedTo s f ns ty)))"
    unfolding replace_fst by (intro prune_keeps_edge) simp_all
qed (rule replace_children_subset)

lemma replace_other_edge_subset:
  assumes "edge_from e \<noteq> node_id f \<or> edge_type e \<noteq> ty"
    and "e \<in> set (edges (fst (replaceNodesConnectedTo s f ns ty)))"
  shows "e \<in> set (edges s)"
  using assms(2) unfolding replace_fst
  by (auto dest!: prune_edges_subset simp: other_mem_replaceEdges [OF assms(1)])

lemma replace_other_edge_kept:
  assumes "edge_from e \<noteq> node_id f \<or> edge_type e \<noteq> ty"
    and "e \<in> set (edges s)"
    and "reachableFromRoot (replaceEdges s f ns ty) (edge_from e)"
  shows "e \<in> set (edges (fst (replaceNodesConnectedTo s f ns ty)))"
  unfolding replace_fst using assms
  by (intro prune_keeps_edge) (simp_all add: other_mem_replaceEdges)

lemma replace_hasNode:
  "hasNode (fst (replaceNodesConnectedTo s f ns ty)) k \<longleftrightarrow>
     (hasNode s k \<or> k \<in> node_id ` set (nodesToConnect s f ns ty)) \<and>
     k \<notin> node_id ` set (prunedNodes (replaceEdges s f ns ty) (idsToDisconnect s f ns ty))"
  by (simp add: replace_fst hasNode_prune hasNode_replaceEdges)


subsection \<open>Initializing the graph\<close>

lemma foldl_setIncomplete_graph [simp]:
  "nodes (foldl setIncomplete s ns) = nodes s" "edges (foldl setIncomplete s ns) = edges s"
  "rootNodeId (foldl setIncomplete s ns) = rootNodeId s"
  "invalidNodes (foldl setIncomplete s ns) = invalidNodes s"
  by (induction ns arbitrary: s) simp_all


lemma foldl_setIncomplete_mem:
  "n \<in> set ns \<Longrightarrow>
   \<exists>n' \<in> set ns. node_id n' = node_id n \<and>
     map_of (incompleteNodes (foldl setIncomplete s ns)) (node_id n) = Some n'"
proof (induction ns arbitrary: s rule: rev_induct)
  case Nil
  then show ?case by simp
next
  case (snoc x xs)
  show ?case
  proof (cases "node_id x = node_id n")
    case True
    then show ?thesis by (auto simp: setIncomplete_def update_conv')
  next
    case False
    with snoc.prems have "n \<in> set xs" by auto
    from snoc.IH [OF this, of s] False show ?thesis
      by (auto simp: setIncomplete_def update_conv')
  qed
qed

lemma foldl_setIncomplete_distinct:
  assumes "distinct (map node_id ns)" and "n \<in> set ns"
  shows "map_of (incompleteNodes (foldl setIncomplete s ns)) (node_id n) = Some n"
proof -
  from foldl_setIncomplete_mem [OF assms(2), of s] obtain n' where
    n': "n' \<in> set ns" "node_id n' = node_id n"
    "map_of (incompleteNodes (foldl setIncomplete s ns)) (node_id n) = Some n'" by blast
  from assms n'(1,2) have "n' = n" by (meson distinct_map inj_onD)
  with n'(3) show ?thesis by simp
qed

lemma hasNode_setRootNode [simp]:
  "hasNode (setRootNode g n) k \<longleftrightarrow> k = node_id n \<or> hasNode g k"
  by (simp add: setRootNode_def hasNode_def addNode_def keys_update)

lemma setRootNode_fields [simp]:
  "rootNodeId (setRootNode g n) = Some (node_id n)" "edges (setRootNode g n) = edges g"
  by (simp_all add: setRootNode_def addNode_def)

lemma reachableFromRoot_root: "rootNodeId g = Some r \<Longrightarrow> reachableFromRoot g r"
  by (simp add: reachableFromRoot_def reachable_def)

lemma edgesClosed_iff: "edgesClosed g \<longleftrightarrow> (\<forall>e \<in> set (edges g). hasNode g (edge_to e))"
  by (simp add: edgesClosed_def list_all_iff)

text \<open>children of a reachable node are nodes after the replacement\<close>
lemma replace_child_hasNode:
  assumes "reachableFromRoot (replaceEdges s f ns ty) (node_id f)"
    and "edgesClosed s" and "n \<in> set ns"
  shows "hasNode (fst (replaceNodesConnectedTo s f ns ty)) (node_id n)"
proof -
  let ?g = "replaceEdges s f ns ty"
  from assms(3) have e: "mkEdge (node_id f) ty (node_id n) \<in> set (edges ?g)"
    by (simp add: mkEdge_mem_replaceEdges)
  then have "(node_id f, node_id n) \<in> edgePairs ?g" by (auto simp: edgePairs_iff)
  with assms(1) have r: "reachableFromRoot ?g (node_id n)" by (rule reachableFromRoot_step)
  have "hasNode ?g (node_id n)"
  proof (cases "node_id n \<in> set (childIds s (node_id f) ty)")
    case True
    then have "mkEdge (node_id f) ty (node_id n) \<in> set (edges s)" by (simp add: childIds_iff)
    with assms(2) have "hasNode s (node_id n)" by (force simp: edgesClosed_iff)
    then show ?thesis by (simp add: hasNode_replaceEdges)
  next
    case False
    with assms(3) have "n \<in> set (nodesToConnect s f ns ty)" by (simp add: nodesToConnect_def)
    then show ?thesis by (simp add: hasNode_replaceEdges)
  qed
  with r show ?thesis unfolding replace_fst by (rule prune_keeps_node [rotated])
qed

lemma length_entryNodes: "length (entryNodes ext es ts) = length es * length ts"
  by (simp add: entryNodes_def)

lemma nth_entryNodes:
  assumes "k < length es * length ts"
  shows "entryNodes ext es ts ! k =
           nodeFromDep (newDependency ext k
             \<lparr>moduleSpecifier = es ! (k div length ts), target = Some (ts ! (k mod length ts)),
              env = target_env (ts ! (k mod length ts)), isEntry = True\<rparr>)"
  using assms by (simp add: entryNodes_def nth_enumerate_eq product_nth)

text \<open>
  C8. \<^verbatim>\<open>initializeGraph\<close> throws if and only if entries are given and targets
  are not. With entries \<open>es\<close> and targets \<open>ts\<close> it builds one dependency node
  per pair, the \<open>k\<close>-th for entry \<open>k div length ts\<close> and target \<open>k mod length ts\<close>,
  flagged \<^verbatim>\<open>isEntry\<close>, with the entry as module specifier and the environment of the
  target; it succeeds, the children of the root along default edges are exactly the ids
  of these nodes, every one of the ids is in the incomplete index with a node built for
  that id (the node itself when the ids differ), and the nodes are in the graph when no
  edge of the graph before led to a missing node.
\<close>

theorem initializeGraph_entries:
  "((\<exists>e. initializeGraph ext s opts = Inl e) \<longleftrightarrow> entries opts \<noteq> None \<and> targets opts = None) \<and>
   (entries opts = Some es \<longrightarrow> targets opts = Some ts \<longrightarrow>
      length (entryNodes ext es ts) = length es * length ts \<and>
      (\<forall>k < length es * length ts.
         entryNodes ext es ts ! k =
           nodeFromDep (newDependency ext k
             \<lparr>moduleSpecifier = es ! (k div length ts), target = Some (ts ! (k mod length ts)),
              env = target_env (ts ! (k mod length ts)), isEntry = True\<rparr>)) \<and>
      (\<exists>s'. initializeGraph ext s opts = Inr s' \<and>
         rootNodeId s' = Some (rootDir opts) \<and> hasNode s' (rootDir opts) \<and>
         (\<forall>k. hasEdge s' (mkEdge (rootDir opts) None k) \<longleftrightarrow>
                k \<in> node_id ` set (entryNodes ext es ts)) \<and>
         (\<forall>n \<in> set (entryNodes ext es ts).
            (edgesClosed s \<longrightarrow> hasNode s' (node_id n)) \<and>
            (\<exists>n' \<in> set (entryNodes ext es ts). node_id n' = node_id n \<and>
               map_of (incompleteNodes s') (node_id n) = Some n') \<and>
            (distinct (map node_id (entryNodes ext es ts)) \<longrightarrow>
               map_of (incompleteNodes s') (node_id n) = Some n))))"
proof (intro conjI impI)
  show "(\<exists>e. initializeGraph ext s opts = Inl e) \<longleftrightarrow> entries opts \<noteq> None \<and> targets opts = None"
    by (auto simp: initializeGraph_def Let_def split: option.splits)
next
  assume es: "entries opts = Some es" and ts: "targets opts = Some ts"
  show "length (entryNodes ext es ts) = length es * length ts" by (rule length_entryNodes)
  show "\<forall>k < length es * length ts.
         entryNodes ext es ts ! k =
           nodeFromDep (newDependency ext k
             \<lparr>moduleSpecifier = es ! (k div length ts), target = Some (ts ! (k mod length ts)),
              env = target_env (ts ! (k mod length ts)), isEntry = True\<rparr>)"
    by (simp add: nth_entryNodes)
  let ?root = "nodeFromRootDir (rootDir opts) :: 'a Node"
  let ?ns = "entryNodes ext es ts"
  let ?s1 = "setRootNode s ?root"
  let ?s2 = "fst (replaceNodesConnectedTo ?s1 ?root ?ns None)"
  let ?s' = "foldl setIncomplete ?s2 ?ns"
  have id: "node_id ?root = rootDir opts" by (simp add: nodeFromRootDir_def)
  have init: "initializeGraph ext s opts = Inr ?s'"
    using es ts by (simp add: initializeGraph_def Let_def)
  have root1: "rootNodeId ?s1 = Some (rootDir opts)" by (simp add: id)
  then have reach: "reachableFromRoot (replaceEdges ?s1 ?root ?ns None) (node_id ?root)"
    by (intro reachableFromRoot_root) (simp add: id)
  have a: "rootNodeId ?s' = Some (rootDir opts)" using root1 by simp
  have "hasNode (replaceEdges ?s1 ?root ?ns None) (rootDir opts)"
    by (simp add: hasNode_replaceEdges id)
  with reach have b: "hasNode ?s' (rootDir opts)"
    unfolding replace_fst by (simp add: hasNode_def) (metis hasNode_def id prune_keeps_node)
  have c: "\<forall>k. hasEdge ?s' (mkEdge (rootDir opts) None k) \<longleftrightarrow> k \<in> node_id ` set ?ns"
    using replace_children [OF reach] by (simp add: hasEdge_def id)
  have d: "edgesClosed s \<longrightarrow> hasNode ?s' (node_id n)" if "n \<in> set ?ns" for n
  proof
    assume "edgesClosed s"
    then have "edgesClosed ?s1" by (auto simp: edgesClosed_iff)
    from replace_child_hasNode [OF reach this that] show "hasNode ?s' (node_id n)"
      by (simp add: hasNode_def)
  qed
  from init a b c d foldl_setIncomplete_mem [of _ ?ns ?s2] foldl_setIncomplete_distinct [of ?ns _ ?s2]
  show "\<exists>s'. initializeGraph ext s opts = Inr s' \<and>
         rootNodeId s' = Some (rootDir opts) \<and> hasNode s' (rootDir opts) \<and>
         (\<forall>k. hasEdge s' (mkEdge (rootDir opts) None k) \<longleftrightarrow>
                k \<in> node_id ` set (entryNodes ext es ts)) \<and>
         (\<forall>n \<in> set (entryNodes ext es ts).
            (edgesClosed s \<longrightarrow> hasNode s' (node_id n)) \<and>
            (\<exists>n' \<in> set (entryNodes ext es ts). node_id n' = node_id n \<and>
               map_of (incompleteNodes s') (node_id n) = Some n') \<and>
            (distinct (map node_id (entryNodes ext es ts)) \<longrightarrow>
               map_of (incompleteNodes s') (node_id n) = Some n))"
    by (intro exI [of _ ?s']) blast
qed


theorem initializeGraph_entries_witness:
  "initializeGraph exampleExt emptyAssetGraph exampleOpts = Inr initialGraph \<and>
   entryNodes exampleExt [''./index.js'', ''./main.js''] [\<lparr>target_env = ''node14''\<rparr>] =
     [nodeFromDep (exampleDep ''./index.js''), nodeFromDep (exampleDep ''./main.js'')] \<and>
   map fst (nodes initialGraph) = [''/proj'', ''./index.js#node14'', ''./main.js#node14''] \<and>
   hasEdge initialGraph (mkEdge ''/proj'' None ''./index.js#node14'') \<and>
   hasEdge initialGraph (mkEdge ''/proj'' None ''./main.js#node14'') \<and>
   incompleteNodes initialGraph =
     [(''./index.js#node14'', nodeFromDep (exampleDep ''./index.js'')),
      (''./main.js#node14'', nodeFromDep (exampleDep ''./main.js''))] \<and>
   initializeGraph exampleExt emptyAssetGraph (exampleOpts\<lparr>targets := None\<rparr>) =
     Inl (Error ''Targets are required when entries are specified'')"
proof -
  let ?es = "[''./index.js'', ''./main.js'']"
  let ?ts = "[\<lparr>target_env = ''node14''\<rparr>]"
  have e: "entries exampleOpts = Some ?es" and t: "targets exampleOpts = Some ?ts"
    and r: "rootDir exampleOpts = ''/proj''"
    by (simp_all add: exampleOpts_def)
  have n: "entryNodes exampleExt ?es ?ts =
     [nodeFromDep (exampleDep ''./index.js''), nodeFromDep (exampleDep ''./main.js'')]"
    by code_simp
  have i: "initializeGraph exampleExt emptyAssetGraph exampleOpts = Inr initialGraph"
    by code_simp
  from initializeGraph_entries [of exampleExt emptyAssetGraph exampleOpts ?es ?ts] e t i r
  have "\<forall>k. hasEdge initialGraph (mkEdge ''/proj'' None k) \<longleftrightarrow>
              k \<in> node_id ` set (entryNodes exampleExt ?es ?ts)"
    by simp
  then have h: "hasEdge initialGraph (mkEdge ''/proj'' None ''./index.js#node14'')"
    "hasEdge initialGraph (mkEdge ''/proj'' None ''./main.js#node14'')"
    by (simp_all add: n nodeFromDep_def exampleDep_def)
  have "map fst (nodes initialGraph) = [''/proj'', ''./index.js#node14'', ''./main.js#node14'']"
    and "incompleteNodes initialGraph =
     [(''./index.js#node14'', nodeFromDep (exampleDep ''./index.js'')),
      (''./main.js#node14'', nodeFromDep (exampleDep ''./main.js''))]"
    and "initializeGraph exampleExt emptyAssetGraph (exampleOpts\<lparr>targets := None\<rparr>) =
     Inl (Error ''Targets are required when entries are specified'')"
    by code_simp+
  with i n h show ?thesis by simp
qed

subsection \<open>Resolving a dependency\<close>

lemma nodesKeyed_iff: "nodesKeyed g \<longleftrightarrow> (\<forall>(k, n) \<in> set (nodes g). node_id n = k)"
  by (simp add: nodesKeyed_def list_all_iff)

lemma replaceEdges_nodes:
  "\<exists>zs. nodes (replaceEdges g f ns ty) = nodes g @ zs \<and>
        set zs \<subseteq> (\<lambda>n. (node_id n, n)) ` set (nodesToConnect g f ns ty) \<and>
        fst ` set zs = node_id ` set (nodesToConnect g f ns ty) - fst ` set (nodes g) \<and>
        nodes (fst (snd (replaceNodesConnectedTo g f ns ty))) = zs"
proof -
  from foldl_insertIfAbsent [of "nodes g" "nodesToConnect g f ns ty"] obtain zs where
    z: "foldl insertIfAbsent (nodes g) (nodesToConnect g f ns ty) = nodes g @ zs"
    "set zs \<subseteq> (\<lambda>n. (node_id n, n)) ` set (nodesToConnect g f ns ty)"
    "fst ` set zs = node_id ` set (nodesToConnect g f ns ty) - fst ` set (nodes g)" by blast
  have 1: "nodes (replaceEdges g f ns ty) = nodes g @ zs" by (simp add: replaceEdges_def z(1))
  have "filter (\<lambda>(k, n). \<not> hasNode g k) (nodes g) = []"
    by (auto simp: filter_empty_conv hasNode_def image_iff)
  moreover have "filter (\<lambda>(k, n). \<not> hasNode g k) zs = zs"
  proof (intro filter_True ballI)
    fix p assume "p \<in> set zs"
    then have "fst p \<in> fst ` set zs" by (rule imageI)
    with z(3) have "fst p \<notin> fst ` set (nodes g)" by blast
    then show "case p of (k, n) \<Rightarrow> \<not> hasNode g k" by (cases p) (simp add: hasNode_def)
  qed
  ultimately have "nodes (fst (snd (replaceNodesConnectedTo g f ns ty))) = zs"
    by (simp add: replace_added 1)
  with 1 z show ?thesis by blast
qed

lemma map_of_filter_keys:
  "map_of (filter (\<lambda>p. fst p \<notin> P) xs) k = (if k \<in> P then None else map_of xs k)"
  by (induction xs) auto

lemma getNode_prune:
  "k \<notin> node_id ` set (prunedNodes g ds) \<Longrightarrow>
   getNode (foldl removeNode g (prunedNodes g ds)) k = getNode g k"
  by (simp add: getNode_def foldl_removeNode_nodes map_of_filter_keys)

lemma map_of_single_key:
  assumes "set zs \<subseteq> {(k, v)}" and "zs \<noteq> []"
  shows "map_of zs k = Some v"
  using assms by (cases zs) auto


lemma prunedNodes_mem:
  "n \<in> set (prunedNodes g ds) \<longleftrightarrow>
     n \<in> snd ` set (nodes g) \<and> (\<exists>c \<in> set ds. reachable g c (node_id n)) \<and>
     \<not> reachableFromRoot g (node_id n)"
  by (auto simp: prunedNodes_def)

lemma prunedNodes_id:
  assumes "n \<in> snd ` set (nodes g)"
  shows "node_id n \<in> node_id ` set (prunedNodes g ds) \<longleftrightarrow> n \<in> set (prunedNodes g ds)"
proof
  assume "node_id n \<in> node_id ` set (prunedNodes g ds)"
  then obtain m where m: "m \<in> set (prunedNodes g ds)" "node_id m = node_id n" by auto
  from m(1) have "(\<exists>c \<in> set ds. reachable g c (node_id m)) \<and> \<not> reachableFromRoot g (node_id m)"
    by (simp add: prunedNodes_mem)
  with m(2) assms show "n \<in> set (prunedNodes g ds)" by (simp add: prunedNodes_mem)
qed (rule imageI)

lemma filter_filter_mem:
  "filter P (filter Q xs) = filter (\<lambda>x. P x \<and> x \<in> set (filter Q xs)) xs"
proof -
  have "filter (\<lambda>x. P x \<and> x \<in> set (filter Q xs)) xs = filter (\<lambda>x. Q x \<and> P x) xs"
    by (rule filter_cong) auto
  then show ?thesis by simp
qed

lemma keyed_hasNode:
  assumes "nodesKeyed g" and "n \<in> snd ` set (nodes g)"
  shows "hasNode g (node_id n)"
proof -
  from assms(2) obtain k where k: "(k, n) \<in> set (nodes g)" by auto
  with assms(1) have "node_id n = k" by (auto simp: nodesKeyed_iff)
  with k show ?thesis by (force simp: hasNode_def)
qed

lemma resolveDependency_unfold:
  "resolveDependency ext s dep req =
     (let s0 = deleteInvalid (deleteIncomplete s (dep_id dep)) (dep_id dep);
          requestNode = nodeFromTransformerRequest ext req;
          res = replaceNodesConnectedTo s0 (nodeFromDep dep) [requestNode] None
      in (\<lparr>newRequestNode = (if nodes (fst (snd res)) \<noteq> [] then Some requestNode else None),
           prunedFiles = getFilesFromGraph (snd (snd res))\<rparr>,
          if nodes (fst (snd res)) \<noteq> [] then setIncomplete (fst res) requestNode else fst res))"
  by (simp add: resolveDependency_def Let_def nodeFromDep_def split: prod.splits)

text \<open>
  C3. For a dependency whose node is in the graph and reachable from the root,
  \<^verbatim>\<open>resolveDependency\<close> leaves the dependency in neither index, makes the
  content-addressed request node the one child of the dependency along default edges,
  and returns the request node as \<^verbatim>\<open>newRequestNode\<close> exactly when the node was not
  in the graph before and is now; then the graph holds this node under its id and so
  does the incomplete index. In a graph that stores every node under its own id,
  \<^verbatim>\<open>prunedFiles\<close> are the values of the file nodes of the graph before that the
  graph after no longer has, in the order of the graph: the file nodes of the removed
  subgraph.
\<close>

theorem resolveDependency_resolves:
  assumes root: "rootNodeId s = Some r" and reach: "reachable s r (dep_id dep)"
    and has: "hasNode s (dep_id dep)"
    and res: "resolveDependency ext s dep req = (u, s')"
  shows "map_of (incompleteNodes s') (dep_id dep) = None \<and>
         map_of (invalidNodes s') (dep_id dep) = None \<and>
         (\<forall>k. hasEdge s' (mkEdge (dep_id dep) None k) \<longleftrightarrow>
                k = node_id (nodeFromTransformerRequest ext req)) \<and>
         (newRequestNode u = Some (nodeFromTransformerRequest ext req) \<or> newRequestNode u = None) \<and>
         (newRequestNode u = Some (nodeFromTransformerRequest ext req) \<longleftrightarrow>
            \<not> hasNode s (node_id (nodeFromTransformerRequest ext req)) \<and>
            hasNode s' (node_id (nodeFromTransformerRequest ext req))) \<and>
         (newRequestNode u = Some (nodeFromTransformerRequest ext req) \<longrightarrow>
            getNode s' (node_id (nodeFromTransformerRequest ext req)) =
              Some (nodeFromTransformerRequest ext req) \<and>
            map_of (incompleteNodes s') (node_id (nodeFromTransformerRequest ext req)) =
              Some (nodeFromTransformerRequest ext req)) \<and>
         (nodesKeyed s \<longrightarrow>
            prunedFiles u =
              map node_value (filter (\<lambda>n. node_type n = ''file'' \<and> \<not> hasNode s' (node_id n))
                               (map snd (nodes s))))"
proof -
  define D where "D = dep_id dep"
  define T where "T = nodeFromTransformerRequest ext req"
  define depNode :: "'a Node" where "depNode = nodeFromDep dep"
  define s0 where "s0 = deleteInvalid (deleteIncomplete s D) D"
  define g where "g = replaceEdges s0 depNode [T] None"
  define ds where "ds = idsToDisconnect s0 depNode [T] None"
  define s2 where "s2 = fst (replaceNodesConnectedTo s0 depNode [T] None)"
  define added where "added = fst (snd (replaceNodesConnectedTo s0 depNode [T] None))"
  define removed where "removed = snd (snd (replaceNodesConnectedTo s0 depNode [T] None))"
  have idD: "node_id depNode = D" by (simp add: depNode_def nodeFromDep_def D_def)
  have tyT: "node_type T = ''transformer_request''"
    by (simp add: T_def nodeFromTransformerRequest_def)
  have s2: "s2 = foldl removeNode g (prunedNodes g ds)"
    by (simp add: s2_def g_def ds_def replace_fst)
  from res have u: "u = \<lparr>newRequestNode = (if nodes added \<noteq> [] then Some T else None),
                         prunedFiles = getFilesFromGraph removed\<rparr>"
    and s': "s' = (if nodes added \<noteq> [] then setIncomplete s2 T else s2)"
    by (auto simp: resolveDependency_unfold Let_def s0_def D_def T_def depNode_def s2_def
        added_def removed_def split: if_splits)
  have graph0: "nodes s0 = nodes s" "edges s0 = edges s" "rootNodeId s0 = rootNodeId s"
    by (simp_all add: s0_def)
  have has0: "\<And>k. hasNode s0 k = hasNode s k" by (simp add: s0_def)
  \<comment> \<open>the dependency and the request stay reachable\<close>
  from reach have "reachableAvoiding s0 [] r D"
    by (simp add: reachableAvoiding_Nil reachable_def edgePairs_def graph0 D_def)
  then have "reachableAvoiding s0 [D] r D" by (rule reachableAvoiding_target)
  with root have reachD: "reachableFromRoot g (node_id depNode)"
    unfolding g_def idD by (intro replace_keeps_avoiding(2) [where xs = "[D]" and r = r])
      (simp_all add: graph0 idD)
  have edgeT: "mkEdge D None (node_id T) \<in> set (edges g)"
    using mkEdge_mem_replaceEdges [of depNode None "node_id T" s0 "[T]"] by (simp add: g_def idD)
  then have "(D, node_id T) \<in> edgePairs g" by (auto simp: edgePairs_iff)
  with reachD have reachT: "reachableFromRoot g (node_id T)"
    unfolding idD by (rule reachableFromRoot_step)
  then have notP: "node_id T \<notin> node_id ` set (prunedNodes g ds)"
    using pruned_unreachable by blast
  \<comment> \<open>the nodes the replacement added\<close>
  from replaceEdges_nodes [of s0 depNode "[T]" None] obtain zs where
    zs: "nodes g = nodes s @ zs"
    "set zs \<subseteq> (\<lambda>n. (node_id n, n)) ` set (nodesToConnect s0 depNode [T] None)"
    "fst ` set zs = node_id ` set (nodesToConnect s0 depNode [T] None) - fst ` set (nodes s)"
    "nodes added = zs"
    by (auto simp: g_def added_def graph0)
  have sub: "set (nodesToConnect s0 depNode [T] None) \<subseteq> {T}"
    by (auto simp: nodesToConnect_def)
  have new_iff: "nodes added \<noteq> [] \<longleftrightarrow> \<not> hasNode s (node_id T) \<and> hasNode s2 (node_id T)"
  proof
    assume "nodes added \<noteq> []"
    with zs(4) obtain p where "p \<in> set zs" by (cases zs) auto
    then have p: "fst p \<in> fst ` set zs" by (rule imageI)
    from sub have "node_id ` set (nodesToConnect s0 depNode [T] None) \<subseteq> {node_id T}" by blast
    with zs(3) p have "fst p = node_id T" by blast
    with zs(3) p have "node_id T \<notin> fst ` set (nodes s)" "node_id T \<in> fst ` set zs" by auto
    with zs(1) notP show "\<not> hasNode s (node_id T) \<and> hasNode s2 (node_id T)"
      by (simp add: s2 hasNode_prune) (simp add: hasNode_def image_Un)
  next
    assume a: "\<not> hasNode s (node_id T) \<and> hasNode s2 (node_id T)"
    then have "hasNode g (node_id T)" by (simp add: s2 hasNode_prune)
    with a zs(1) have "node_id T \<in> fst ` set zs" by (auto simp: hasNode_def)
    with zs(4) show "nodes added \<noteq> []" by auto
  qed
  \<comment> \<open>the indices\<close>
  have "set (incompleteNodes s2) \<subseteq> set (incompleteNodes s0)"
    unfolding s2_def by (rule replace_incomplete)
  moreover have "D \<notin> fst ` set (incompleteNodes s0)"
    by (simp add: s0_def deleteInvalid_def deleteIncomplete_def delete_notin_dom)
  ultimately have "D \<notin> fst ` set (incompleteNodes s2)" by auto
  then have inc2: "map_of (incompleteNodes s2) D = None" by (simp add: map_of_eq_None_iff)
  have TD: "node_id T \<noteq> D" if "nodes added \<noteq> []"
    using that has new_iff by (auto simp: D_def)
  have c1: "map_of (incompleteNodes s') D = None"
    using inc2 TD by (auto simp: s' setIncomplete_def update_conv')
  have "invalidNodes s' = invalidNodes s0" by (simp add: s' s2_def)
  then have c2: "map_of (invalidNodes s') D = None"
    by (simp add: s0_def deleteInvalid_def deleteIncomplete_def delete_conv)
  \<comment> \<open>the one child\<close>
  have "\<And>k. mkEdge D None k \<in> set (edges s2) \<longleftrightarrow> k = node_id T"
    using replace_children [of s0 depNode "[T]" None] reachD
    by (simp add: g_def s2_def idD)
  then have c3: "\<forall>k. hasEdge s' (mkEdge D None k) \<longleftrightarrow> k = node_id T"
    by (simp add: s' hasEdge_def)
  \<comment> \<open>the new request node\<close>
  have hasN: "\<And>k. hasNode s' k = hasNode s2 k" by (simp add: s' hasNode_def)
  have c4: "newRequestNode u = Some T \<or> newRequestNode u = None" by (simp add: u)
  have c5: "newRequestNode u = Some T \<longleftrightarrow> \<not> hasNode s (node_id T) \<and> hasNode s' (node_id T)"
    using new_iff by (simp add: u hasN)
  have c6: "newRequestNode u = Some T \<longrightarrow>
      getNode s' (node_id T) = Some T \<and> map_of (incompleteNodes s') (node_id T) = Some T"
  proof
    assume n: "newRequestNode u = Some T"
    from n have ne: "nodes added \<noteq> []" by (simp add: u split: if_splits)
    with new_iff have "node_id T \<notin> fst ` set (nodes s)" by (simp add: hasNode_def)
    then have "map_of (nodes s) (node_id T) = None" by (simp add: map_of_eq_None_iff)
    moreover from zs(2) sub have "set zs \<subseteq> {(node_id T, T)}" by auto
    with ne zs(4) have "map_of zs (node_id T) = Some T" by (intro map_of_single_key) simp_all
    ultimately have "getNode g (node_id T) = Some T"
      by (simp add: getNode_def zs(1) map_add_def)
    with notP have "getNode s2 (node_id T) = Some T" by (simp add: s2 getNode_prune)
    with ne show "getNode s' (node_id T) = Some T \<and> map_of (incompleteNodes s') (node_id T) = Some T"
      by (simp add: s' getNode_def setIncomplete_def update_conv')
  qed
  \<comment> \<open>the pruned files\<close>
  have c7: "nodesKeyed s \<longrightarrow> prunedFiles u =
              map node_value (filter (\<lambda>n. node_type n = ''file'' \<and> \<not> hasNode s' (node_id n))
                               (map snd (nodes s)))"
  proof
    assume keyed: "nodesKeyed s"
    have pf: "prunedFiles u = map node_value (filter (\<lambda>n. node_type n = ''file'')
                (prunedNodes g ds))"
      by (simp add: u removed_def replace_removed getFilesFromGraph_def getFileNodesFromGraph_def
          g_def ds_def comp_def)
    have zfile: "filter (\<lambda>n. node_type n = ''file'' \<and> Q n) (map snd zs) = []" for Q
      using zs(2) sub tyT by (auto simp: filter_empty_conv)
    have "(n \<in> set (prunedNodes g ds)) = (\<not> hasNode s' (node_id n))"
      if "n \<in> snd ` set (nodes s)" for n
    proof -
      from keyed_hasNode [OF keyed that] have "hasNode g (node_id n)"
        by (auto simp: hasNode_def zs(1))
      moreover from that have "n \<in> snd ` set (nodes g)" by (auto simp: zs(1))
      then have "node_id n \<in> node_id ` set (prunedNodes g ds) \<longleftrightarrow> n \<in> set (prunedNodes g ds)"
        by (rule prunedNodes_id)
      ultimately show ?thesis by (simp add: hasN s2 hasNode_prune)
    qed
    then have "filter (\<lambda>n. node_type n = ''file'' \<and> n \<in> set (prunedNodes g ds)) (map snd (nodes s))
          = filter (\<lambda>n. node_type n = ''file'' \<and> \<not> hasNode s' (node_id n)) (map snd (nodes s))"
      by (intro filter_cong refl) simp
    moreover have "filter (\<lambda>n. node_type n = ''file'') (prunedNodes g ds)
          = filter (\<lambda>n. node_type n = ''file'' \<and> n \<in> set (prunedNodes g ds)) (map snd (nodes g))"
      unfolding prunedNodes_def by (rule filter_filter_mem)
    ultimately show "prunedFiles u =
              map node_value (filter (\<lambda>n. node_type n = ''file'' \<and> \<not> hasNode s' (node_id n))
                               (map snd (nodes s)))"
      by (simp add: pf zs(1) zfile)
  qed
  show ?thesis unfolding D_def [symmetric] T_def [symmetric]
    by (intro conjI c1 c2 c3 c4 c5 c6 c7)
qed


theorem resolveDependency_resolves_witness:
  "resolveDependency exampleExt initialGraph (exampleDep ''./index.js'') exampleRequest =
     (\<lparr>newRequestNode = Some exampleT, prunedFiles = []\<rparr>, resolvedGraph) \<and>
   incompleteNodes resolvedGraph =
     [(''./main.js#node14'', nodeFromDep (exampleDep ''./main.js'')), (node_id exampleT, exampleT)] \<and>
   hasEdge resolvedGraph (mkEdge ''./index.js#node14'' None (node_id exampleT)) \<and>
   resolveDependency exampleExt transformedGraph (exampleDep ''./index.js'') movedRequest =
     (\<lparr>newRequestNode = Some (nodeFromTransformerRequest exampleExt movedRequest),
       prunedFiles = [FileValue \<lparr>filePath = ''/proj/index.js''\<rparr>]\<rparr>, movedGraph) \<and>
   \<not> hasNode movedGraph ''/proj/index.js'' \<and> hasNode transformedGraph ''/proj/index.js''"
proof -
  have 1: "rootNodeId initialGraph = Some ''/proj''"
    and 2: "reachable initialGraph ''/proj'' (dep_id (exampleDep ''./index.js''))"
    and 3: "hasNode initialGraph (dep_id (exampleDep ''./index.js''))"
    and 4: "resolveDependency exampleExt initialGraph (exampleDep ''./index.js'') exampleRequest =
     (\<lparr>newRequestNode = Some exampleT, prunedFiles = []\<rparr>, resolvedGraph)"
    by code_simp+
  have 5: "dep_id (exampleDep ''./index.js'') = ''./index.js#node14''"
    and 6: "nodeFromTransformerRequest exampleExt exampleRequest = exampleT"
    by (simp_all add: exampleDep_def exampleT_def)
  from resolveDependency_resolves [OF 1 2 3 4]
  have a: "hasEdge resolvedGraph (mkEdge ''./index.js#node14'' None (node_id exampleT))"
    by (simp add: 5 6)
  have b: "incompleteNodes resolvedGraph =
     [(''./main.js#node14'', nodeFromDep (exampleDep ''./main.js'')), (node_id exampleT, exampleT)]"
    by code_simp
  have c: "resolveDependency exampleExt transformedGraph (exampleDep ''./index.js'') movedRequest =
     (\<lparr>newRequestNode = Some (nodeFromTransformerRequest exampleExt movedRequest),
       prunedFiles = [FileValue \<lparr>filePath = ''/proj/index.js''\<rparr>]\<rparr>, movedGraph)"
    by code_simp
  have d: "\<not> hasNode movedGraph ''/proj/index.js''" "hasNode transformedGraph ''/proj/index.js''"
    by code_simp+
  from 4 a b c d show ?thesis by simp
qed

subsection \<open>Resolving a transformer request\<close>

lemma replace_keeps_children:
  assumes "a \<noteq> node_id f \<or> ty' \<noteq> ty"
    and "reachableFromRoot (replaceEdges g f ns ty) a"
  shows "mkEdge a ty' k \<in> set (edges (fst (replaceNodesConnectedTo g f ns ty)))
         \<longleftrightarrow> mkEdge a ty' k \<in> set (edges g)"
proof
  assume "mkEdge a ty' k \<in> set (edges (fst (replaceNodesConnectedTo g f ns ty)))"
  with assms(1) show "mkEdge a ty' k \<in> set (edges g)"
    by (intro replace_other_edge_subset [of "mkEdge a ty' k" f ty g ns]) simp_all
next
  assume "mkEdge a ty' k \<in> set (edges g)"
  with assms show "mkEdge a ty' k \<in> set (edges (fst (replaceNodesConnectedTo g f ns ty)))"
    by (intro replace_other_edge_kept) simp_all
qed

lemma edgesClosed_replaceEdges:
  assumes "edgesClosed g"
  shows "edgesClosed (replaceEdges g f ns ty)"
  unfolding edgesClosed_iff
proof
  fix e assume e: "e \<in> set (edges (replaceEdges g f ns ty))"
  show "hasNode (replaceEdges g f ns ty) (edge_to e)"
  proof (cases "e \<in> set (edges g)")
    case True
    with assms show ?thesis by (auto simp: edgesClosed_iff hasNode_replaceEdges)
  next
    case False
    with e have c: "edge_from e = node_id f \<and> edge_type e = ty" and n: "edge_to e \<in> node_id ` set ns"
      by (auto simp: edge_mem_replaceEdges split: if_splits)
    from c have "e = mkEdge (node_id f) ty (edge_to e)" by (metis mkEdge_eta)
    with False have "edge_to e \<notin> set (childIds g (node_id f) ty)" by (simp add: childIds_iff)
    with n have "edge_to e \<in> node_id ` set (nodesToConnect g f ns ty)"
      by (auto simp: nodesToConnect_def)
    then show ?thesis by (simp add: hasNode_replaceEdges)
  qed
qed

lemma edgesClosed_prune:
  assumes "edgesClosed g"
  shows "edgesClosed (foldl removeNode g (prunedNodes g ds))"
  using assms by (auto simp: edgesClosed_iff foldl_removeNode_edges hasNode_prune)

lemma edgesClosed_replace:
  "edgesClosed g \<Longrightarrow> edgesClosed (fst (replaceNodesConnectedTo g f ns ty))"
  unfolding replace_fst by (intro edgesClosed_prune edgesClosed_replaceEdges)

lemma replace_keeps_node:
  assumes "hasNode g k" and "reachableFromRoot (replaceEdges g f ns ty) k"
  shows "hasNode (fst (replaceNodesConnectedTo g f ns ty)) k"
  unfolding replace_fst using assms by (intro prune_keeps_node) (simp_all add: hasNode_replaceEdges)


lemma replace_added_nodes:
  assumes "p \<in> set (nodes (fst (snd (replaceNodesConnectedTo g f ns ty))))"
  shows "snd p \<in> set ns" and "fst p = node_id (snd p)" and "\<not> hasNode g (fst p)"
proof -
  from replaceEdges_nodes [of g f ns ty] obtain zs where
    z: "set zs \<subseteq> (\<lambda>n. (node_id n, n)) ` set (nodesToConnect g f ns ty)"
    "fst ` set zs = node_id ` set (nodesToConnect g f ns ty) - fst ` set (nodes g)"
    "nodes (fst (snd (replaceNodesConnectedTo g f ns ty))) = zs" by blast
  with assms have p: "p \<in> set zs" by simp
  with z(1) show "snd p \<in> set ns" and "fst p = node_id (snd p)"
    by (auto simp: nodesToConnect_def)
  from p have "fst p \<in> fst ` set zs" by (rule imageI)
  with z(2) show "\<not> hasNode g (fst p)" by (simp add: hasNode_def)
qed


lemma replace_step:
  assumes root: "rootNodeId g = Some r" and av: "reachableAvoiding g xs r t"
    and f: "node_id f \<in> set xs"
  shows "rootNodeId (fst (replaceNodesConnectedTo g f ns ty)) = Some r"
    and "reachableAvoiding (fst (replaceNodesConnectedTo g f ns ty)) xs r t"
    and "t \<noteq> node_id f \<or> ty' \<noteq> ty \<Longrightarrow>
         mkEdge t ty' k \<in> set (edges (fst (replaceNodesConnectedTo g f ns ty)))
         \<longleftrightarrow> mkEdge t ty' k \<in> set (edges g)"
    and "mkEdge t ty0 a \<in> set (edges g) \<Longrightarrow> t \<noteq> node_id f \<or> ty0 \<noteq> ty \<Longrightarrow>
         a \<noteq> node_id f \<or> ty' \<noteq> ty \<Longrightarrow>
         mkEdge a ty' k \<in> set (edges (fst (replaceNodesConnectedTo g f ns ty)))
         \<longleftrightarrow> mkEdge a ty' k \<in> set (edges g)"
    and "node_id f = t \<Longrightarrow>
         mkEdge (node_id f) ty k \<in> set (edges (fst (replaceNodesConnectedTo g f ns ty)))
         \<longleftrightarrow> k \<in> node_id ` set ns"
    and "mkEdge t ty0 (node_id f) \<in> set (edges g) \<Longrightarrow> t \<noteq> node_id f \<or> ty0 \<noteq> ty \<Longrightarrow>
         mkEdge (node_id f) ty k \<in> set (edges (fst (replaceNodesConnectedTo g f ns ty)))
         \<longleftrightarrow> k \<in> node_id ` set ns"
    and "hasNode g t \<Longrightarrow> hasNode (fst (replaceNodesConnectedTo g f ns ty)) t"
proof -
  let ?g1 = "replaceEdges g f ns ty"
  from root show "rootNodeId (fst (replaceNodesConnectedTo g f ns ty)) = Some r" by simp
  from replace_keeps_avoiding(1) [OF root f av]
  show "reachableAvoiding (fst (replaceNodesConnectedTo g f ns ty)) xs r t" .
  from replace_keeps_avoiding(2) [OF root f av]
  have reachT: "reachableFromRoot ?g1 t" .
  have anchored: "reachableFromRoot ?g1 a"
    if "mkEdge t ty0 a \<in> set (edges g)" "t \<noteq> node_id f \<or> ty0 \<noteq> ty" for a ty0
  proof -
    from that have "mkEdge t ty0 a \<in> set (edges ?g1)" by (simp add: other_mem_replaceEdges)
    then have "(t, a) \<in> edgePairs ?g1" by (auto simp: edgePairs_iff)
    with reachT show ?thesis by (rule reachableFromRoot_step)
  qed
  show "mkEdge t ty' k \<in> set (edges (fst (replaceNodesConnectedTo g f ns ty)))
         \<longleftrightarrow> mkEdge t ty' k \<in> set (edges g)" if "t \<noteq> node_id f \<or> ty' \<noteq> ty"
    using that reachT by (rule replace_keeps_children)
  show "mkEdge a ty' k \<in> set (edges (fst (replaceNodesConnectedTo g f ns ty)))
         \<longleftrightarrow> mkEdge a ty' k \<in> set (edges g)"
    if "mkEdge t ty0 a \<in> set (edges g)" "t \<noteq> node_id f \<or> ty0 \<noteq> ty" "a \<noteq> node_id f \<or> ty' \<noteq> ty"
    using that(3) anchored [OF that(1,2)] by (rule replace_keeps_children)
  show "mkEdge (node_id f) ty k \<in> set (edges (fst (replaceNodesConnectedTo g f ns ty)))
         \<longleftrightarrow> k \<in> node_id ` set ns" if "node_id f = t"
    using reachT that by (intro replace_children) simp
  show "mkEdge (node_id f) ty k \<in> set (edges (fst (replaceNodesConnectedTo g f ns ty)))
         \<longleftrightarrow> k \<in> node_id ` set ns"
    if "mkEdge t ty0 (node_id f) \<in> set (edges g)" "t \<noteq> node_id f \<or> ty0 \<noteq> ty"
    using anchored [OF that] by (rule replace_children)
  show "hasNode (fst (replaceNodesConnectedTo g f ns ty)) t" if "hasNode g t"
    using that reachT by (rule replace_keeps_node)
qed





lemma reachableAvoiding_edges:
  "edges g = edges h \<Longrightarrow> reachableAvoiding g xs a b = reachableAvoiding h xs a b"
  by (simp add: reachableAvoiding_def)

lemma edgesClosed_cong:
  "edges g = edges h \<Longrightarrow> nodes g = nodes h \<Longrightarrow> edgesClosed g = edgesClosed h"
  by (simp add: edgesClosed_def hasNode_def)




lemma closed_edge_hasNode:
  "edgesClosed g \<Longrightarrow> mkEdge a ty b \<in> set (edges g) \<Longrightarrow> hasNode g b"
  by (force simp: edgesClosed_iff)






subsection \<open>Two dependencies that share a request\<close>

lemma index_deletions_graph:
  "nodes (deleteInvalid (deleteIncomplete s k) k) = nodes s"
  "edges (deleteInvalid (deleteIncomplete s k) k) = edges s"
  "rootNodeId (deleteInvalid (deleteIncomplete s k) k) = rootNodeId s"
  by (simp_all add: deleteInvalid_def deleteIncomplete_def)

lemma distinct_insertIfAbsent:
  "distinct (map fst xs) \<Longrightarrow> distinct (map fst (foldl insertIfAbsent xs ns))"
proof (induction ns arbitrary: xs)
  case Nil
  then show ?case by simp
next
  case (Cons n ns)
  from Cons.prems have "distinct (map fst (insertIfAbsent xs n))"
    by (simp add: insertIfAbsent_def)
  then show ?case using Cons.IH by simp
qed

lemma distinct_keys_replace:
  assumes "distinct (map fst (nodes g))"
  shows "distinct (map fst (nodes (fst (replaceNodesConnectedTo g f ns ty))))"
proof -
  from assms have "distinct (map fst (nodes (replaceEdges g f ns ty)))"
    by (simp add: replaceEdges_def distinct_insertIfAbsent)
  then show ?thesis
    unfolding replace_fst foldl_removeNode_nodes by (rule distinct_map_filter)
qed

lemma one_entry_per_key:
  "distinct (map fst xs) \<Longrightarrow> k \<in> fst ` set xs \<Longrightarrow> length (filter (\<lambda>q. fst q = k) xs) = 1"
proof (induction xs)
  case Nil
  then show ?case by simp
next
  case (Cons x xs)
  show ?case
  proof (cases "fst x = k")
    case True
    with Cons.prems have "k \<notin> fst ` set xs" by simp
    then have "\<forall>q \<in> set xs. fst q \<noteq> k" by blast
    then have "filter (\<lambda>q. fst q = k) xs = []" by (simp add: filter_empty_conv)
    with True show ?thesis by simp
  next
    case False
    with Cons show ?thesis by auto
  qed
qed

lemma resolveDependency_step:
  fixes ext :: "'j Externals" and s :: "'j AssetGraph" and req :: "'j TransformerRequest"
  defines "t \<equiv> node_id (nodeFromTransformerRequest ext req)"
  assumes root: "rootNodeId s = Some r" and av: "reachableAvoiding s xs r a"
    and d: "dep_id dep \<in> set xs" and res: "resolveDependency ext s dep req = (u, s')"
  shows "rootNodeId s' = Some r"
    and "reachableAvoiding s' xs r a"
    and "a \<noteq> dep_id dep \<Longrightarrow>
           mkEdge a None k \<in> set (edges s') \<longleftrightarrow> mkEdge a None k \<in> set (edges s)"
    and "a = dep_id dep \<Longrightarrow> mkEdge a None k \<in> set (edges s') \<longleftrightarrow> k = t"
    and "hasNode s a \<Longrightarrow> hasNode s' a"
    and "edgesClosed s \<Longrightarrow> edgesClosed s'"
    and "hasNode s t \<Longrightarrow> newRequestNode u = None"
    and "distinct (map fst (nodes s)) \<Longrightarrow> distinct (map fst (nodes s'))"
proof -
  define T where "T = nodeFromTransformerRequest ext req"
  define D :: "'j Node" where "D = nodeFromDep dep"
  define s0 where "s0 = deleteInvalid (deleteIncomplete s (dep_id dep)) (dep_id dep)"
  define s2 where "s2 = fst (replaceNodesConnectedTo s0 D [T] None)"
  define added where "added = nodes (fst (snd (replaceNodesConnectedTo s0 D [T] None)))"
  have idD: "node_id D = dep_id dep" by (simp add: D_def nodeFromDep_def)
  have idT: "node_id T = t" by (simp add: T_def t_def)
  have g0: "nodes s0 = nodes s" "edges s0 = edges s" "rootNodeId s0 = rootNodeId s"
    unfolding s0_def by (rule index_deletions_graph)+
  from res have u: "newRequestNode u = (if added \<noteq> [] then Some T else None)"
    and s': "s' = (if added \<noteq> [] then setIncomplete s2 T else s2)"
    unfolding resolveDependency_unfold
    by (auto simp: Let_def s0_def s2_def added_def T_def D_def)
  have g': "nodes s' = nodes s2" "edges s' = edges s2" "rootNodeId s' = rootNodeId s2"
    by (simp_all add: s' setIncomplete_def)
  from root have root0: "rootNodeId s0 = Some r" by (simp add: g0)
  from av have av0: "reachableAvoiding s0 xs r a"
    using reachableAvoiding_edges [of s0 s] by (simp add: g0)
  from d have f: "node_id D \<in> set xs" by (simp add: idD)
  note step = replace_step [OF root0 av0 f, where ns = "[T]" and ty = None, folded s2_def]
  from step(1) show "rootNodeId s' = Some r" by (simp add: g')
  from step(2) show "reachableAvoiding s' xs r a"
    using reachableAvoiding_edges [of s' s2] by (simp add: g')
  show "mkEdge a None k \<in> set (edges s') \<longleftrightarrow> mkEdge a None k \<in> set (edges s)"
    if "a \<noteq> dep_id dep"
    using step(3) [of None k] that by (simp add: g' g0 idD)
  show "mkEdge a None k \<in> set (edges s') \<longleftrightarrow> k = t" if "a = dep_id dep"
    using step(5) [of k] that by (simp add: g' idD idT)
  show "hasNode s' a" if "hasNode s a"
  proof -
    from that have "hasNode s0 a" by (simp add: hasNode_def g0)
    then have "hasNode s2 a" by (rule step(7))
    then show ?thesis by (simp add: hasNode_def g')
  qed
  show "edgesClosed s'" if "edgesClosed s"
  proof -
    from that have "edgesClosed s0" using edgesClosed_cong [of s0 s] by (simp add: g0)
    then have "edgesClosed s2" unfolding s2_def by (rule edgesClosed_replace)
    then show ?thesis using edgesClosed_cong [of s' s2] by (simp add: g')
  qed
  show "newRequestNode u = None" if "hasNode s t"
  proof -
    have "added = []"
    proof (rule ccontr)
      assume "added \<noteq> []"
      then obtain p where p: "p \<in> set added" by (cases added) auto
      then have p': "p \<in> set (nodes (fst (snd (replaceNodesConnectedTo s0 D [T] None))))"
        by (simp add: added_def)
      from replace_added_nodes [OF p'] have "fst p = t" and "\<not> hasNode s0 (fst p)"
        by (simp_all add: idT)
      with that show False by (simp add: hasNode_def g0)
    qed
    then show ?thesis by (simp add: u)
  qed
  show "distinct (map fst (nodes s'))" if "distinct (map fst (nodes s))"
  proof -
    from that have "distinct (map fst (nodes s0))" by (simp add: g0)
    then have "distinct (map fst (nodes s2))" unfolding s2_def by (rule distinct_keys_replace)
    then show ?thesis by (simp add: g')
  qed
qed

subsection \<open>Invalidating a dev-dependency request\<close>

lemma addInvalidations_default_edges:
  "addInvalidations ext cr s invs = Inr s' \<Longrightarrow> e \<in> set (edges s') \<Longrightarrow> edge_type e = None
     \<Longrightarrow> e \<in> set (edges s)"
proof (induction invs arbitrary: s)
  case Nil
  then show ?case by simp
next
  case (Cons i invs)
  from Cons.prems(1) obtain edgeType where
    t: "getInvalidationEdgeType (inv_action i) = Inr edgeType"
    by (cases "getInvalidationEdgeType (inv_action i)") (auto simp: Let_def)
  define n :: "'a Node" where
    "n = (if isGlob ext (inv_pattern i) then nodeFromGlob (inv_pattern i)
          else nodeFromFile \<lparr>filePath = inv_pattern i\<rparr>)"
  define c where "c = \<lparr>edge_from = node_id cr, edge_to = node_id n, edge_type = Some edgeType\<rparr>"
  define s1 where "s1 = (if \<not> hasEdge s c then addEdge (addNode s n) c else s)"
  from Cons.prems(1) t have 2: "addInvalidations ext cr s1 invs = Inr s'"
    by (auto simp: Let_def s1_def c_def n_def split: if_splits)
  from Cons.IH [OF 2 Cons.prems(2,3)] have "e \<in> set (edges s1)" .
  moreover from Cons.prems(3) have "e \<noteq> c" by (auto simp: c_def)
  ultimately show ?case by (auto simp: s1_def addEdge_edges split: if_splits)
qed

lemma addDevDepRequests_default_edges:
  "foldl (addDevDepRequest ext cr) (s, acc) ds = (s', acc') \<Longrightarrow> e \<in> set (edges s')
     \<Longrightarrow> edge_type e = None \<Longrightarrow> e \<in> set (edges s)"
proof (induction ds arbitrary: s acc)
  case Nil
  then show ?case by simp
next
  case (Cons d ds)
  obtain s1 acc1 where 1: "addDevDepRequest ext cr (s, acc) d = (s1, acc1)" by force
  with Cons.prems(1) have "foldl (addDevDepRequest ext cr) (s1, acc1) ds = (s', acc')" by simp
  from Cons.IH [OF this Cons.prems(2,3)] have "e \<in> set (edges s1)" .
  with 1 Cons.prems(3) show ?case
    by (auto simp: addDevDepRequest_def Let_def addEdge_edges split: if_splits)
qed

lemma addDevDepRequests_nodes:
  "foldl (addDevDepRequest ext cr) (s, acc) ds = (s', acc') \<Longrightarrow> n \<in> set acc' \<Longrightarrow>
   n \<in> set acc \<or>
   node_type n = ''dev_dep_request'' \<and>
   hasEdge s' (mkEdge (node_id cr) (Some ''configures'') (node_id n))"
proof (induction ds arbitrary: s acc)
  case Nil
  then show ?case by simp
next
  case (Cons d ds)
  define m where "m = nodeFromDevDepRequest ext d"
  define c where "c = mkEdge (node_id cr) (Some ''configures'') (node_id m)"
  obtain s1 acc1 where 1: "addDevDepRequest ext cr (s, acc) d = (s1, acc1)" by force
  then have acc1: "acc1 = acc @ [m]" and c: "hasEdge s1 c"
    by (auto simp: addDevDepRequest_def Let_def m_def c_def mkEdge_def split: if_splits)
  from Cons.prems(1) 1 have 2: "foldl (addDevDepRequest ext cr) (s1, acc1) ds = (s', acc')"
    by simp
  from Cons.IH [OF 2 Cons.prems(2)] have
    "n \<in> set acc1 \<or> node_type n = ''dev_dep_request'' \<and>
       hasEdge s' (mkEdge (node_id cr) (Some ''configures'') (node_id n))" .
  moreover have "hasEdge s' c" using addDevDepRequests_mono [OF 2, of c] c by blast
  moreover have "node_type m = ''dev_dep_request''" by (simp add: m_def nodeFromDevDepRequest_def)
  ultimately show ?case unfolding acc1 c_def by auto
qed

lemma resolveConfigRequest_stages:
  assumes "resolveConfigRequest ext s result request = Inr (devDepRequestNodes, s')"
  obtains s2 s3 where
    "set (edges s2) \<subseteq> insert (mkEdge (node_id request) None (node_id (nodeFromConfig (result_config result))))
                         (set (edges s))"
    and "addInvalidations ext request s2
           (case invalidations result of None \<Rightarrow> [] | Some invs \<Rightarrow> invs) = Inr s3"
    and "foldl (addDevDepRequest ext request) (s3, []) (devDepRequests result) = (s', devDepRequestNodes)"
proof -
  define c where "c = mkEdge (node_id request) None (node_id (nodeFromConfig (result_config result)))"
  define s1 where "s1 = deleteInvalid (deleteIncomplete s (node_id request)) (node_id request)"
  define s2 where "s2 = (if \<not> hasEdge s1 c then addEdge (addNode s1 (nodeFromConfig (result_config result))) c else s1)"
  have "resolveConfigRequest ext s result request =
    (case addInvalidations ext request s2
                (case invalidations result of None \<Rightarrow> [] | Some invs \<Rightarrow> invs) of
           Inl e \<Rightarrow> Inl e
         | Inr s3 \<Rightarrow>
             (case foldl (addDevDepRequest ext request) (s3, []) (devDepRequests result) of
                (s4, devDepRequestNodes) \<Rightarrow> Inr (devDepRequestNodes, s4)))"
    by (simp add: resolveConfigRequest_def Let_def s2_def s1_def c_def mkEdge_def)
  with assms obtain s3 where
    3: "addInvalidations ext request s2
          (case invalidations result of None \<Rightarrow> [] | Some invs \<Rightarrow> invs) = Inr s3" and
    4: "foldl (addDevDepRequest ext request) (s3, []) (devDepRequests result) = (s', devDepRequestNodes)"
    by (auto split: sum.splits prod.splits)
  have "set (edges s2) \<subseteq> insert c (set (edges s))"
    by (auto simp: s2_def s1_def addEdge_edges)
  with 3 4 that show thesis unfolding c_def by blast
qed

lemma getNodesConnectedTo_no_edge:
  assumes "\<forall>e \<in> set (edges g). edge_to e = node_id n \<longrightarrow> edge_type e \<noteq> ty"
  shows "getNodesConnectedTo g n ty = []"
proof -
  from assms have "filter (\<lambda>e. edge_to e = node_id n \<and> edge_type e = ty) (edges g) = []"
    by (auto simp: filter_empty_conv)
  then show ?thesis by (simp add: getNodesConnectedTo_def List.map_filter_simps)
qed

lemma invalidateNode_configRequest:
  assumes "invalidateNode s node = Inr s'" and "node_type node = ''config_request''"
  shows "\<exists>actionNode rest.
           getNodesConnectedTo s node None = actionNode # rest \<and>
           s' = s\<lparr>invalidNodes := AList.update (node_id actionNode) actionNode
                                   (AList.update (node_id node) node (invalidNodes s))\<rparr>"
  using assms
  by (auto simp: invalidateNode_def setInvalid_def Let_def getActionNode_def
      split: if_splits option.splits list.splits)


text \<open>
  Claim C1 fails on the code for dev-dependency requests. \<^verbatim>\<open>resolveConfigRequest\<close> joins
  the config request to every dev-dependency request it returns by an edge of type
  \<^verbatim>\<open>configures\<close> and by no other edge, and \<^verbatim>\<open>getActionNode\<close> looks for the parents
  of a dev-dependency request along default edges. So for every dev-dependency request
  node that \<^verbatim>\<open>resolveConfigRequest\<close> returns, if no default edge led to its id before
  and its id is not the id of the config node, \<^verbatim>\<open>invalidateNode\<close> finds no parent and
  ends in a TypeError: neither the config request nor the action node is marked invalid.
  (In the source the dev-dependency request itself has been set in \<^verbatim>\<open>invalidNodes\<close>
  when the exception is thrown; the result \<open>Inl TypeError\<close> does not keep that state.)
  For a config request the walk is one default edge, the one \<^verbatim>\<open>addConfigRequest\<close>
  creates, and the cascade works: \<open>invalidateNode_configRequest\<close>.
\<close>

theorem invalidateNode_devDepRequest_throws:
  assumes res: "resolveConfigRequest ext s result configRequestNode = Inr (devDepRequestNodes, s')"
    and node: "node \<in> set devDepRequestNodes"
    and noDefault: "\<forall>e \<in> set (edges s). edge_to e = node_id node \<longrightarrow> edge_type e \<noteq> None"
    and id: "node_id node \<noteq> node_id (nodeFromConfig (result_config result))"
  shows "node_type node = ''dev_dep_request'' \<and>
         hasEdge s' (mkEdge (node_id configRequestNode) (Some ''configures'') (node_id node)) \<and>
         getNodesConnectedTo s' node None = [] \<and>
         invalidateNode s' node = Inl TypeError"
proof -
  from res obtain s2 s3 where
    2: "set (edges s2) \<subseteq> insert (mkEdge (node_id configRequestNode) None
                                    (node_id (nodeFromConfig (result_config result)))) (set (edges s))"
    and 3: "addInvalidations ext configRequestNode s2
           (case invalidations result of None \<Rightarrow> [] | Some invs \<Rightarrow> invs) = Inr s3"
    and 4: "foldl (addDevDepRequest ext configRequestNode) (s3, []) (devDepRequests result)
              = (s', devDepRequestNodes)"
    by (rule resolveConfigRequest_stages)
  from addDevDepRequests_nodes [OF 4 node]
  have ty: "node_type node = ''dev_dep_request''"
    and cfg: "hasEdge s' (mkEdge (node_id configRequestNode) (Some ''configures'') (node_id node))"
    by simp_all
  have none: "\<forall>e \<in> set (edges s'). edge_to e = node_id node \<longrightarrow> edge_type e \<noteq> None"
  proof (intro ballI impI notI)
    fix e assume e: "e \<in> set (edges s')" and to: "edge_to e = node_id node"
      and d: "edge_type e = None"
    from addDevDepRequests_default_edges [OF 4 e d] have "e \<in> set (edges s3)" .
    from addInvalidations_default_edges [OF 3 this d] have "e \<in> set (edges s2)" .
    with 2 have "e = mkEdge (node_id configRequestNode) None
                       (node_id (nodeFromConfig (result_config result))) \<or> e \<in> set (edges s)"
      by blast
    then show False
    proof
      assume "e = mkEdge (node_id configRequestNode) None (node_id (nodeFromConfig (result_config result)))"
      with to id show False by (simp add: mkEdge_def)
    next
      assume "e \<in> set (edges s)"
      with noDefault to d show False by blast
    qed
  qed
  then have parents: "getNodesConnectedTo s' node None = []" by (rule getNodesConnectedTo_no_edge)
  then have "getActionNode (setInvalid s' node) node = None"
    by (simp add: getActionNode_def ty setInvalid_def)
  then have "invalidateNode s' node = Inl TypeError"
    by (simp add: invalidateNode_def ty Let_def)
  with ty cfg parents show ?thesis by (intro conjI)
qed

theorem invalidateNode_devDepRequest_throws_witness:
  "resolveConfigRequest exampleExt (addConfigRequest (addNode emptyAssetGraph exampleT) exampleCR exampleT)
     exampleConfigResult exampleCR = Inr ([exampleDDR], configuredGraph) \<and>
   getNodesConnectedTo configuredGraph exampleDDR (Some ''configures'') = [exampleCR] \<and>
   getNodesConnectedTo configuredGraph exampleCR None = [exampleT] \<and>
   getNodesConnectedTo configuredGraph exampleDDR None = [] \<and>
   invalidateNode configuredGraph exampleDDR = Inl TypeError \<and>
   invalidateNode configuredGraph exampleCR = Inr invalidatedGraph"
proof -
  let ?s = "addConfigRequest (addNode emptyAssetGraph exampleT) exampleCR exampleT"
  have 1: "resolveConfigRequest exampleExt ?s exampleConfigResult exampleCR =
             Inr ([exampleDDR], configuredGraph)"
    and 2: "exampleDDR \<in> set [exampleDDR]"
    and 3: "\<forall>e \<in> set (edges ?s). edge_to e = node_id exampleDDR \<longrightarrow> edge_type e \<noteq> None"
    and 4: "node_id exampleDDR \<noteq> node_id (nodeFromConfig (result_config exampleConfigResult))"
    by code_simp+
  have 5: "getNodesConnectedTo configuredGraph exampleDDR (Some ''configures'') = [exampleCR]"
    and 6: "getNodesConnectedTo configuredGraph exampleCR None = [exampleT]"
    and 7: "invalidateNode configuredGraph exampleCR = Inr invalidatedGraph"
    by code_simp+
  from invalidateNode_devDepRequest_throws [OF 1 2 3 4]
  have "getNodesConnectedTo configuredGraph exampleDDR None = []"
    and "invalidateNode configuredGraph exampleDDR = Inl TypeError" by simp_all
  with 1 5 6 7 show ?thesis by (intro conjI)
qed

subsection \<open>Removing one of two dependencies that share a request\<close>

lemma reachableFromRoot_replace:
  assumes "reachableFromRoot (fst (replaceNodesConnectedTo g f ns ty)) k"
  shows "reachableFromRoot (replaceEdges g f ns ty) k"
proof -
  let ?h = "replaceEdges g f ns ty"
  let ?p = "foldl removeNode ?h (prunedNodes ?h (idsToDisconnect g f ns ty))"
  have "edgePairs ?p \<subseteq> edgePairs ?h"
  proof
    fix x assume "x \<in> edgePairs ?p"
    then obtain a b ty' where x: "x = (a, b)" and "mkEdge a ty' b \<in> set (edges ?p)"
      by (cases x) (auto simp: edgePairs_iff)
    then have "mkEdge a ty' b \<in> set (edges ?h)" by (blast dest: prune_edges_subset)
    then show "x \<in> edgePairs ?h" unfolding x edgePairs_iff by blast
  qed
  then have "(edgePairs ?p)\<^sup>* \<subseteq> (edgePairs ?h)\<^sup>*" by (rule rtrancl_mono)
  with assms show ?thesis
    unfolding replace_fst reachableFromRoot_def reachable_rtrancl
    by (auto split: option.splits)
qed

text \<open>
  Claim C4. Two requests with the same file path whose environments serialize to the
  same string get the same node id from \<^verbatim>\<open>nodeFromTransformerRequest\<close>. Let a
  dependency \<open>d1\<close> be resolved to such a request already (the request node is its only
  default child), in a graph whose edges all end in a node and whose nodes have distinct
  keys, and let another dependency \<open>d2\<close>, reachable from the root, now be resolved to a
  request of the same path and environment, \<open>d1\<close> being reachable from the root along
  a path that does not leave \<open>d2\<close>. Then the resolution creates no node
  (\<open>newRequestNode\<close> is \<open>None\<close>), the only default child of either dependency is the
  node of that id, and the graph holds exactly one node under the id. If afterwards the
  children of any node \<open>p\<close> along any edge type are replaced, and \<open>d\<close>, one of the
  two dependencies, is still reachable from the root in the resulting graph (the
  replacement not being one of the default children of \<open>d\<close> itself that drops the
  request), then the request node is still in the graph, still the child of \<open>d\<close>, and
  not among the removed nodes, whatever became of the other dependency.
\<close>

theorem transformerRequest_shared:
  assumes path: "req_filePath req1 = req_filePath req2"
    and envs: "JSON_stringify ext (req_env req1) = JSON_stringify ext (req_env req2)"
    and root: "rootNodeId s = Some r"
    and closed: "edgesClosed s"
    and keys: "distinct (map fst (nodes s))"
    and ne: "dep_id d1 \<noteq> dep_id d2"
    and first: "\<forall>k. hasEdge s (mkEdge (dep_id d1) None k) \<longleftrightarrow>
                      k = node_id (nodeFromTransformerRequest ext req1)"
    and av1: "reachableAvoiding s [dep_id d2] r (dep_id d1)"
    and reach2: "reachable s r (dep_id d2)"
    and r2: "resolveDependency ext s d2 req2 = (u2, s2)"
    and r3: "replaceNodesConnectedTo s2 p ns ty = (s3, added, removed)"
    and dd: "d = dep_id d1 \<or> d = dep_id d2"
    and other: "node_id p \<noteq> d \<or> ty \<noteq> None \<or>
                node_id (nodeFromTransformerRequest ext req1) \<in> node_id ` set ns"
    and still: "reachableFromRoot s3 d"
  shows "node_id (nodeFromTransformerRequest ext req1) = node_id (nodeFromTransformerRequest ext req2) \<and>
         newRequestNode u2 = None \<and>
         (\<forall>k. hasEdge s2 (mkEdge (dep_id d1) None k) \<longleftrightarrow>
                k = node_id (nodeFromTransformerRequest ext req1)) \<and>
         (\<forall>k. hasEdge s2 (mkEdge (dep_id d2) None k) \<longleftrightarrow>
                k = node_id (nodeFromTransformerRequest ext req1)) \<and>
         length (filter (\<lambda>q. fst q = node_id (nodeFromTransformerRequest ext req1)) (nodes s2)) = 1 \<and>
         hasNode s3 (node_id (nodeFromTransformerRequest ext req1)) \<and>
         hasEdge s3 (mkEdge d None (node_id (nodeFromTransformerRequest ext req1))) \<and>
         node_id (nodeFromTransformerRequest ext req1) \<notin> fst ` set (nodes removed)"
proof -
  define t where "t = node_id (nodeFromTransformerRequest ext req1)"
  from path envs have same: "node_id (nodeFromTransformerRequest ext req2) = t"
    by (simp add: t_def nodeFromTransformerRequest_def)
  \<comment> \<open>the first dependency has the request as its child already\<close>
  from first have e1: "mkEdge (dep_id d1) None k \<in> set (edges s) \<longleftrightarrow> k = t" for k
    by (simp add: t_def hasEdge_def)
  then have "mkEdge (dep_id d1) None t \<in> set (edges s)" by simp
  with closed have has: "hasNode s t" by (rule closed_edge_hasNode)
  \<comment> \<open>the second dependency is resolved\<close>
  have in2: "dep_id d2 \<in> set [dep_id d2]" by simp
  from reach2 have "reachableAvoiding s [] r (dep_id d2)" by (simp add: reachableAvoiding_Nil)
  then have av2: "reachableAvoiding s [dep_id d2] r (dep_id d2)" by (rule reachableAvoiding_target)
  note A = resolveDependency_step [OF root av1 in2 r2]
  note B = resolveDependency_step [OF root av2 in2 r2]
  from A(3) ne e1 have c3: "mkEdge (dep_id d1) None k \<in> set (edges s2) \<longleftrightarrow> k = t" for k
    by simp
  from B(4) have c4: "mkEdge (dep_id d2) None k \<in> set (edges s2) \<longleftrightarrow> k = t" for k
    by (simp add: same)
  from B(7) has have c2: "newRequestNode u2 = None" by (simp add: same)
  have has2: "hasNode s2 t"
  proof -
    from B(6) closed have "edgesClosed s2" .
    moreover from c4 have "mkEdge (dep_id d2) None t \<in> set (edges s2)" by simp
    ultimately show ?thesis by (rule closed_edge_hasNode)
  qed
  from B(8) keys have "distinct (map fst (nodes s2))" .
  moreover from has2 have "t \<in> fst ` set (nodes s2)" by (simp add: hasNode_def)
  ultimately have c5: "length (filter (\<lambda>q. fst q = t) (nodes s2)) = 1"
    by (rule one_entry_per_key)
  \<comment> \<open>some children are replaced somewhere, and \<open>d\<close> is still reached from the root\<close>
  let ?g = "replaceEdges s2 p ns ty"
  let ?e = "mkEdge d None t"
  from r3 have s3: "s3 = fst (replaceNodesConnectedTo s2 p ns ty)"
    and removed: "removed = snd (snd (replaceNodesConnectedTo s2 p ns ty))" by simp_all
  from still have rd: "reachableFromRoot ?g d" unfolding s3 by (rule reachableFromRoot_replace)
  from dd c3 c4 have in2e: "?e \<in> set (edges s2)" by auto
  have ing: "?e \<in> set (edges ?g)"
    using other in2e by (auto simp: edge_mem_replaceEdges mkEdge_def t_def)
  then have "(d, t) \<in> edgePairs ?g" unfolding edgePairs_iff by blast
  with rd have rt: "reachableFromRoot ?g t" by (rule reachableFromRoot_step)
  from has2 rt have c6: "hasNode s3 t" unfolding s3 by (rule replace_keeps_node)
  from rd have "reachableFromRoot ?g (edge_from ?e)" by (simp add: mkEdge_def)
  with ing have "?e \<in> set (edges s3)" unfolding s3 replace_fst by (rule prune_keeps_edge)
  then have c7: "hasEdge s3 ?e" by (simp add: hasEdge_def)
  have c8: "t \<notin> fst ` set (nodes removed)"
  proof
    assume "t \<in> fst ` set (nodes removed)"
    then have "t \<in> node_id ` set (prunedNodes ?g (idsToDisconnect s2 p ns ty))"
      unfolding removed replace_removed by (force simp: image_iff)
    then have "\<not> reachableFromRoot ?g t" by (rule pruned_unreachable)
    with rt show False by simp
  qed
  from c3 have c3': "\<forall>k. hasEdge s2 (mkEdge (dep_id d1) None k) \<longleftrightarrow> k = t"
    by (simp add: hasEdge_def)
  from c4 have c4': "\<forall>k. hasEdge s2 (mkEdge (dep_id d2) None k) \<longleftrightarrow> k = t"
    by (simp add: hasEdge_def)
  from same have c1: "t = node_id (nodeFromTransformerRequest ext req2)" by simp
  from c1 c2 c3' c4' c5 c6 c7 c8 show ?thesis unfolding t_def by (intro conjI)
qed

theorem transformerRequest_shared_witness:
  "resolveDependency exampleExt transformedGraph (exampleDep ''./main.js'') mainRequest =
     (\<lparr>newRequestNode = Some (nodeFromTransformerRequest exampleExt mainRequest), prunedFiles = []\<rparr>,
      mainResolvedGraph) \<and>
   resolveDependency exampleExt mainResolvedGraph (hd (dependencies exampleAsset)) mainRequest =
     (\<lparr>newRequestNode = None, prunedFiles = []\<rparr>, sharedGraph) \<and>
   getNodesConnectedTo sharedGraph (nodeFromTransformerRequest exampleExt mainRequest) None =
     [nodeFromDep (exampleDep ''./main.js''), nodeFromDep (hd (dependencies exampleAsset))] \<and>
   getNodesConnectedTo sharedGraph (nodeFromDep (exampleDep ''./main.js'')) None =
     [nodeFromRootDir ''/proj''] \<and>
   getNodesConnectedTo sharedGraph (nodeFromDep (hd (dependencies exampleAsset))) None =
     [nodeFromAsset exampleAsset] \<and>
   resolveTransformerRequest exampleExt sharedGraph exampleRequest
       \<lparr>assets = [exampleAsset\<lparr>dependencies := []\<rparr>]\<rparr> = ([], unsharedGraph) \<and>
   map fst (nodes unsharedGraph) =
     [''/proj'', ''./index.js#node14'', ''./main.js#node14'', ''md5:/proj/index.js:node14'',
      ''asset:index'', ''/proj/index.js'', ''md5:/proj/main.js:node14''] \<and>
   hasNode unsharedGraph (node_id (nodeFromTransformerRequest exampleExt mainRequest)) \<and>
   hasEdge unsharedGraph
     (mkEdge ''./main.js#node14'' None (node_id (nodeFromTransformerRequest exampleExt mainRequest)))"
proof -
  let ?d1 = "exampleDep ''./main.js''" and ?d2 = "hd (dependencies exampleAsset)"
  let ?p = "nodeFromAsset (exampleAsset\<lparr>dependencies := []\<rparr>)"
  let ?T = "nodeFromTransformerRequest exampleExt mainRequest"
  let ?t = "node_id ?T"
  let ?res = "replaceNodesConnectedTo sharedGraph ?p [] None"
  let ?u = "\<lparr>nodes = [(''/proj'', nodeFromRootDir ''/proj''),
                       (''./index.js#node14'', nodeFromDep (exampleDep ''./index.js'')),
                       (''./main.js#node14'', nodeFromDep ?d1),
                       (node_id exampleT, exampleT),
                       (''asset:index'', nodeFromAsset exampleAsset),
                       (''/proj/index.js'', nodeFromFile \<lparr>filePath = ''/proj/index.js''\<rparr>),
                       (?t, ?T)],
             edges = [mkEdge ''/proj'' None ''./index.js#node14'',
                      mkEdge ''/proj'' None ''./main.js#node14'',
                      mkEdge ''./index.js#node14'' None (node_id exampleT),
                      mkEdge (node_id exampleT) (Some ''produces'') ''asset:index'',
                      mkEdge (node_id exampleT) (Some ''invalidated_by_change_to'') ''/proj/index.js'',
                      mkEdge ''./main.js#node14'' None ?t],
             rootNodeId = Some ''/proj'',
             incompleteNodes = [(?t, ?T)], invalidNodes = []\<rparr> :: string AssetGraph"
  have 1: "req_filePath mainRequest = req_filePath mainRequest"
    and 2: "JSON_stringify exampleExt (req_env mainRequest) = JSON_stringify exampleExt (req_env mainRequest)"
    by (rule refl)+
  have 3: "rootNodeId mainResolvedGraph = Some ''/proj''"
    and 4: "edgesClosed mainResolvedGraph"
    and 5: "distinct (map fst (nodes mainResolvedGraph))"
    and 6: "dep_id ?d1 \<noteq> dep_id ?d2"
    and 8: "reachableAvoiding mainResolvedGraph [dep_id ?d2] ''/proj'' (dep_id ?d1)"
    and 9: "reachable mainResolvedGraph ''/proj'' (dep_id ?d2)"
    and 10: "resolveDependency exampleExt mainResolvedGraph ?d2 mainRequest =
             (\<lparr>newRequestNode = None, prunedFiles = []\<rparr>, sharedGraph)"
    and 12: "dep_id ?d1 = dep_id ?d1 \<or> dep_id ?d1 = dep_id ?d2"
    and 13: "node_id ?p \<noteq> dep_id ?d1 \<or> None \<noteq> (None :: string option) \<or> ?t \<in> node_id ` set []"
    by code_simp+
  have 7: "\<forall>k. hasEdge mainResolvedGraph (mkEdge (dep_id ?d1) None k) \<longleftrightarrow> k = ?t"
  proof -
    have "childIds mainResolvedGraph (dep_id ?d1) None = [?t]" by code_simp
    then have "set (childIds mainResolvedGraph (dep_id ?d1) None) = {?t}" by simp
    then show ?thesis unfolding hasEdge_def childIds_iff [symmetric] by simp
  qed
  have "resolveTransformerRequest exampleExt sharedGraph exampleRequest
          \<lparr>assets = [exampleAsset\<lparr>dependencies := []\<rparr>]\<rparr> = ([], ?u)"
    by code_simp
  then have u: "unsharedGraph = ?u"
    and h: "resolveTransformerRequest exampleExt sharedGraph exampleRequest
       \<lparr>assets = [exampleAsset\<lparr>dependencies := []\<rparr>]\<rparr> = ([], unsharedGraph)"
    by (simp_all add: unsharedGraph_def)
  have "fst ?res = ?u" by code_simp
  then have 11: "?res = (unsharedGraph, fst (snd ?res), snd (snd ?res))"
    by (simp add: prod_eq_iff u)
  have 14: "reachableFromRoot unsharedGraph (dep_id ?d1)"
    and i: "map fst (nodes unsharedGraph) =
     [''/proj'', ''./index.js#node14'', ''./main.js#node14'', ''md5:/proj/index.js:node14'',
      ''asset:index'', ''/proj/index.js'', ''md5:/proj/main.js:node14'']"
    unfolding u by code_simp+
  have d: "dep_id ?d1 = ''./main.js#node14''" by (simp add: exampleDep_def)
  from transformerRequest_shared [OF 1 2 3 4 5 6 7 8 9 10 11 12 13 14]
  have a: "hasNode unsharedGraph ?t" and b: "hasEdge unsharedGraph (mkEdge ''./main.js#node14'' None ?t)"
    by (simp_all add: d)
  have c: "resolveDependency exampleExt transformedGraph ?d1 mainRequest =
     (\<lparr>newRequestNode = Some (nodeFromTransformerRequest exampleExt mainRequest), prunedFiles = []\<rparr>,
      mainResolvedGraph)"
    and e: "getNodesConnectedTo sharedGraph (nodeFromTransformerRequest exampleExt mainRequest) None =
     [nodeFromDep ?d1, nodeFromDep ?d2]"
    and f: "getNodesConnectedTo sharedGraph (nodeFromDep ?d1) None = [nodeFromRootDir ''/proj'']"
    and g: "getNodesConnectedTo sharedGraph (nodeFromDep ?d2) None = [nodeFromAsset exampleAsset]"
    by code_simp+
  from c 10 e f g h i a b show ?thesis by (intro conjI)
qed

end
